theory Spec2Isabelle
  imports Main "HOL-Library.Word" "HOL-Library.List_Lexorder"
begin

unbundle bit_operations_syntax

section \<open>Machine types, failures\<close>

type_synonym u8 = "8 word"
type_synonym u32 = "32 word"
type_synonym u64 = "64 word"

text \<open>Go's \<^verbatim>\<open>int64\<close> is a 64-bit word read in two's complement (\<^term>\<open>sint\<close>).\<close>

type_synonym i64 = "64 word"

text \<open>
  A Go function of this program ends in one of three ways: it returns its values, it
  returns an \<^verbatim>\<open>error\<close> made by \<^verbatim>\<open>fmt.Errorf\<close> (a message), or it panics
  (\<^verbatim>\<open>panic\<close>, a failed \<^verbatim>\<open>assert\<close>, an index or slice bound out of range).
\<close>

datatype fault = Panic | Error string

section \<open>table.go: values and the order-preserving codec\<close>

definition TYPE_ERROR :: u32 where "TYPE_ERROR = 0"
definition TYPE_BYTES :: u32 where "TYPE_BYTES = 1"
definition TYPE_INT64 :: u32 where "TYPE_INT64 = 2"

record Value =
  Type :: u32
  I64 :: i64
  Str :: "u8 list"

text \<open>The zero value of the struct, and the two composite literals the program builds:
  \<^verbatim>\<open>Value{Type: TYPE_BYTES, Str: val}\<close> and \<^verbatim>\<open>Value{Type: TYPE_INT64, I64: val}\<close>.\<close>

definition Value0 :: Value where
  "Value0 = \<lparr>Type = 0, I64 = 0, Str = []\<rparr>"

definition bytesValue :: "u8 list \<Rightarrow> Value" where
  "bytesValue val = \<lparr>Type = TYPE_BYTES, I64 = 0, Str = val\<rparr>"

definition int64Value :: "i64 \<Rightarrow> Value" where
  "int64Value val = \<lparr>Type = TYPE_INT64, I64 = val, Str = []\<rparr>"

text \<open>\<^verbatim>\<open>Value{Type: type_}\<close>, the blank cell \<^verbatim>\<open>Scanner.Deref\<close> hands to the decoder.\<close>

definition typedValue :: "u32 \<Rightarrow> Value" where
  "typedValue t = \<lparr>Type = t, I64 = 0, Str = []\<rparr>"

subsection \<open>encoding/binary\<close>

text \<open>\<^verbatim>\<open>binary.BigEndian.PutUint64\<close> into an 8-byte buffer, and \<^verbatim>\<open>Uint64\<close> of a
  slice; the latter indexes \<^verbatim>\<open>b[7]\<close> first and panics on a shorter slice.\<close>

definition PutUint64 :: "u64 \<Rightarrow> u8 list" where
  "PutUint64 v = [ucast (drop_bit 56 v), ucast (drop_bit 48 v), ucast (drop_bit 40 v),
     ucast (drop_bit 32 v), ucast (drop_bit 24 v), ucast (drop_bit 16 v),
     ucast (drop_bit 8 v), ucast v]"

definition Uint64 :: "u8 list \<Rightarrow> u64" where
  "Uint64 b = ucast (b ! 7) OR push_bit 8 (ucast (b ! 6)) OR push_bit 16 (ucast (b ! 5))
     OR push_bit 24 (ucast (b ! 4)) OR push_bit 32 (ucast (b ! 3)) OR push_bit 40 (ucast (b ! 2))
     OR push_bit 48 (ucast (b ! 1)) OR push_bit 56 (ucast (b ! 0))"

definition PutUint32 :: "u32 \<Rightarrow> u8 list" where
  "PutUint32 v = [ucast (drop_bit 24 v), ucast (drop_bit 16 v), ucast (drop_bit 8 v), ucast v]"

subsection \<open>escapeString, unescapeString\<close>

text \<open>The loop of \<^verbatim>\<open>escapeString\<close>: it fills \<^verbatim>\<open>out\<close> from left to right, two bytes
  for an input byte \<open>\<le> 1\<close> and one byte otherwise.\<close>

fun escapeLoop :: "u8 list \<Rightarrow> u8 list" where
  "escapeLoop [] = []"
| "escapeLoop (ch # rest) =
     (if ch \<le> 1 then 0x01 # (ch + 1) # escapeLoop rest else ch # escapeLoop rest)"

definition escapeString :: "u8 list \<Rightarrow> u8 list" where
  "escapeString inp =
     (let toEscape = count_list inp 0 + count_list inp 1
      in if toEscape = 0 then inp else escapeLoop inp)"

text \<open>The loop of \<^verbatim>\<open>unescapeString\<close>. After an \<open>0x01\<close> it steps to the next byte:
  reading past the end panics, and so does the assertion that the byte is 1 or 2.\<close>

fun unescapeLoop :: "u8 list \<Rightarrow> fault + u8 list" where
  "unescapeLoop [] = Inr []"
| "unescapeLoop (c # rest) =
     (if c = 0x01 then
        (case rest of
           [] \<Rightarrow> Inl Panic
         | d # rest' \<Rightarrow>
             if d = 1 \<or> d = 2 then
               (case unescapeLoop rest' of Inl e \<Rightarrow> Inl e | Inr out \<Rightarrow> Inr ((d - 1) # out))
             else Inl Panic)
      else (case unescapeLoop rest of Inl e \<Rightarrow> Inl e | Inr out \<Rightarrow> Inr (c # out)))"

definition unescapeString :: "u8 list \<Rightarrow> fault + u8 list" where
  "unescapeString inp = (if count_list inp 1 = 0 then Inr inp else unescapeLoop inp)"

subsection \<open>encodeValues, encodeKey, decodeValues, decodeKey\<close>

fun encodeValues :: "u8 list \<Rightarrow> Value list \<Rightarrow> fault + u8 list" where
  "encodeValues out [] = Inr out"
| "encodeValues out (v # vals) =
     (if Type v = TYPE_INT64 then
        (let u = I64 v + push_bit 63 1
         in encodeValues (out @ PutUint64 u) vals)
      else if Type v = TYPE_BYTES then
        encodeValues ((out @ escapeString (Str v)) @ [0]) vals
      else Inl Panic)"

definition encodeKey :: "u8 list \<Rightarrow> u32 \<Rightarrow> Value list \<Rightarrow> fault + u8 list" where
  "encodeKey out prefix vals = encodeValues (out @ PutUint32 prefix) vals"

text \<open>\<^verbatim>\<open>bytes.IndexByte\<close>: the index of the first occurrence, \<open>-1\<close> (here \<open>None\<close>) without one.\<close>

fun IndexByte :: "u8 list \<Rightarrow> u8 \<Rightarrow> nat option" where
  "IndexByte [] c = None"
| "IndexByte (b # bs) c =
     (if b = c then Some 0 else (case IndexByte bs c of None \<Rightarrow> None | Some i \<Rightarrow> Some (Suc i)))"

text \<open>\<^verbatim>\<open>decodeValues\<close> fills the cells of \<^verbatim>\<open>out\<close> in place, driven by their types; the
  model returns the filled cells. Every way it can stop early is a panic: a slice shorter
  than 8 bytes, no terminator, a bad escape, an unknown type, input left over.\<close>

fun decodeValues :: "u8 list \<Rightarrow> Value list \<Rightarrow> fault + Value list" where
  "decodeValues inp [] = (if length inp = 0 then Inr [] else Inl Panic)"
| "decodeValues inp (cell # out) =
     (if Type cell = TYPE_INT64 then
        (if length inp < 8 then Inl Panic
         else
           (let u = Uint64 (take 8 inp)
            in case decodeValues (drop 8 inp) out of
                 Inl e \<Rightarrow> Inl e
               | Inr out' \<Rightarrow> Inr (cell\<lparr>I64 := u - push_bit 63 1\<rparr> # out')))
      else if Type cell = TYPE_BYTES then
        (case IndexByte inp 0 of
           None \<Rightarrow> Inl Panic
         | Some idx \<Rightarrow>
             (case unescapeString (take idx inp) of
                Inl e \<Rightarrow> Inl e
              | Inr s \<Rightarrow>
                  (case decodeValues (drop (idx + 1) inp) out of
                     Inl e \<Rightarrow> Inl e
                   | Inr out' \<Rightarrow> Inr (cell\<lparr>Str := s\<rparr> # out'))))
      else Inl Panic)"

definition decodeKey :: "u8 list \<Rightarrow> Value list \<Rightarrow> fault + Value list" where
  "decodeKey inp out = (if length inp < 4 then Inl Panic else decodeValues (drop 4 inp) out)"

subsection \<open>Auxiliary notions for the codec proofs\<close>

text \<open>The bytes one value contributes to the output of \<^verbatim>\<open>encodeValues\<close>.\<close>

definition encodeValue :: "Value \<Rightarrow> u8 list" where
  "encodeValue v =
     (if Type v = TYPE_INT64 then PutUint64 (I64 v + push_bit 63 1) else escapeString (Str v) @ [0])"

text \<open>The \<open>n\<close> low base-256 digits of a natural number, most significant first.\<close>

fun beNat :: "nat \<Rightarrow> nat \<Rightarrow> nat list" where
  "beNat 0 x = []"
| "beNat (Suc n) x = (x div 256 ^ n) mod 256 # beNat n x"

section \<open>table.go: records and table definitions\<close>

text \<open>A Go \<^verbatim>\<open>string\<close> is a byte sequence; \<^verbatim>\<open>[]byte(s)\<close> reads its bytes.\<close>

definition bytes :: "string \<Rightarrow> u8 list" where
  "bytes s = map of_char s"

record Record =
  Cols :: "string list"
  Vals :: "Value list"

text \<open>\<^verbatim>\<open>&Record{}\<close>, \<^verbatim>\<open>AddStr\<close> and \<^verbatim>\<open>AddInt64\<close>.\<close>

definition Record0 :: Record where
  "Record0 = \<lparr>Cols = [], Vals = []\<rparr>"

definition AddStr :: "Record \<Rightarrow> string \<Rightarrow> u8 list \<Rightarrow> Record" where
  "AddStr rec col val = \<lparr>Cols = Cols rec @ [col], Vals = Vals rec @ [bytesValue val]\<rparr>"

definition AddInt64 :: "Record \<Rightarrow> string \<Rightarrow> i64 \<Rightarrow> Record" where
  "AddInt64 rec col val = \<lparr>Cols = Cols rec @ [col], Vals = Vals rec @ [int64Value val]\<rparr>"

text \<open>\<^verbatim>\<open>Record.Get\<close> walks \<^verbatim>\<open>rec.Cols\<close> and returns \<^verbatim>\<open>&rec.Vals[i]\<close> for the first
  \<open>i\<close> whose name is the key, \<^verbatim>\<open>nil\<close> without one. The pointer is the index \<open>i\<close>;
  indexing \<^verbatim>\<open>rec.Vals\<close> beyond its length panics.\<close>

fun GetIndex :: "string list \<Rightarrow> string \<Rightarrow> nat option" where
  "GetIndex [] key = None"
| "GetIndex (c # cs) key =
     (if c = key then Some 0 else (case GetIndex cs key of None \<Rightarrow> None | Some i \<Rightarrow> Some (Suc i)))"

definition Get :: "Record \<Rightarrow> string \<Rightarrow> fault + Value option" where
  "Get rec key =
     (case GetIndex (Cols rec) key of
        None \<Rightarrow> Inr None
      | Some i \<Rightarrow> if i < length (Vals rec) then Inr (Some (Vals rec ! i)) else Inl Panic)"

text \<open>
  \<^verbatim>\<open>TableDef\<close>. The struct in table.go declares the fields \<^verbatim>\<open>Name\<close>, \<^verbatim>\<open>Types\<close>,
  \<^verbatim>\<open>Cols\<close>, \<^verbatim>\<open>Prefixes\<close> and \<^verbatim>\<open>Indexes\<close>, while every function of the file reads
  \<^verbatim>\<open>tdef.Prefix\<close> and \<^verbatim>\<open>tdef.PKeys\<close> (and \<^verbatim>\<open>dbGet\<close> reads \<^verbatim>\<open>tdef.Indexes[0]\<close>).

  Modelled from the spec: the declaration of the fields \<^verbatim>\<open>Prefix\<close> and \<^verbatim>\<open>PKeys\<close> is
  missing from the source. The specification fixes the shape: one \<^verbatim>\<open>Prefix\<close>, a 4-byte
  unsigned identifier, and one \<^verbatim>\<open>PKeys\<close>, the count of leading columns that form the
  primary key; \<^verbatim>\<open>Indexes\<close> is a sequence of column lists whose first is the primary key
  column list. \<^verbatim>\<open>PKeys\<close> is a Go \<^verbatim>\<open>int\<close>: the code passes it where an \<^verbatim>\<open>int\<close> is expected.
\<close>

record TableDef =
  Name :: string
  Types :: "u32 list"
  Cols :: "string list"
  PKeys :: int
  Prefix :: u32
  Indexes :: "string list list"

text \<open>The internal tables. Modelled from the spec: \<^verbatim>\<open>@meta\<close> has prefix 1 and \<^verbatim>\<open>@table\<close>
  prefix 2 (the source writes them as the one-element \<^verbatim>\<open>Prefixes\<close>); the primary key of
  each is its first column, the only entry of \<^verbatim>\<open>Indexes\<close>.\<close>

definition TDEF_META :: TableDef where
  "TDEF_META = \<lparr>Name = ''@meta'', Types = [TYPE_BYTES, TYPE_BYTES], Cols = [''key'', ''val''],
     PKeys = 1, Prefix = 1, Indexes = [[''key'']]\<rparr>"

definition TDEF_TABLE :: TableDef where
  "TDEF_TABLE = \<lparr>Name = ''@table'', Types = [TYPE_BYTES, TYPE_BYTES], Cols = [''name'', ''def''],
     PKeys = 1, Prefix = 2, Indexes = [[''name'']]\<rparr>"

subsection \<open>reorderRecord, valuesComplete, checkRecord, getValues\<close>

text \<open>The loop of \<^verbatim>\<open>reorderRecord\<close> over \<^verbatim>\<open>tdef.Cols\<close>, from index \<open>i\<close> on; \<open>cols\<close> is
  \<^verbatim>\<open>tdef.Cols[i:]\<close>. A column the record lacks keeps the zero \<^verbatim>\<open>Value\<close> that
  \<^verbatim>\<open>make\<close> put there. \<^verbatim>\<open>tdef.Types[i]\<close> panics beyond the length of \<^verbatim>\<open>Types\<close>.\<close>

fun reorderLoop :: "TableDef \<Rightarrow> Record \<Rightarrow> nat \<Rightarrow> string list \<Rightarrow> fault + Value list" where
  "reorderLoop tdef rec i [] = Inr []"
| "reorderLoop tdef rec i (c # cols) =
     (case Get rec c of
        Inl e \<Rightarrow> Inl e
      | Inr None \<Rightarrow>
          (case reorderLoop tdef rec (Suc i) cols of
             Inl e \<Rightarrow> Inl e
           | Inr out \<Rightarrow> Inr (Value0 # out))
      | Inr (Some v) \<Rightarrow>
          if \<not> i < length (Types tdef) then Inl Panic
          else if Type v \<noteq> Types tdef ! i then Inl (Error (''bad column type: '' @ c))
          else
            (case reorderLoop tdef rec (Suc i) cols of
               Inl e \<Rightarrow> Inl e
             | Inr out \<Rightarrow> Inr (v # out)))"

definition reorderRecord :: "TableDef \<Rightarrow> Record \<Rightarrow> fault + Value list" where
  "reorderRecord tdef rec =
     (if length (Record.Cols rec) \<noteq> length (Vals rec) then Inl Panic
      else reorderLoop tdef rec 0 (Cols tdef))"

text \<open>The loop of \<^verbatim>\<open>valuesComplete\<close> over \<^verbatim>\<open>vals\<close>, from index \<open>i\<close> on. It returns an
  \<^verbatim>\<open>error\<close>: \<open>Inr ()\<close> is \<^verbatim>\<open>nil\<close>.\<close>

fun valuesCompleteLoop :: "TableDef \<Rightarrow> nat \<Rightarrow> Value list \<Rightarrow> int \<Rightarrow> fault + unit" where
  "valuesCompleteLoop tdef i [] n = Inr ()"
| "valuesCompleteLoop tdef i (v # vals) n =
     (if int i < n \<and> Type v = 0 then
        (if i < length (Cols tdef) then Inl (Error (''missing column: '' @ Cols tdef ! i))
         else Inl Panic)
      else if int i \<ge> n \<and> Type v \<noteq> 0 then
        (if i < length (Cols tdef) then Inl (Error (''extra column: '' @ Cols tdef ! i))
         else Inl Panic)
      else valuesCompleteLoop tdef (Suc i) vals n)"

definition valuesComplete :: "TableDef \<Rightarrow> Value list \<Rightarrow> int \<Rightarrow> fault + unit" where
  "valuesComplete tdef vals n = valuesCompleteLoop tdef 0 vals n"

definition checkRecord :: "TableDef \<Rightarrow> Record \<Rightarrow> int \<Rightarrow> fault + Value list" where
  "checkRecord tdef rec n =
     (case reorderRecord tdef rec of
        Inl e \<Rightarrow> Inl e
      | Inr vals \<Rightarrow>
          (case valuesComplete tdef vals n of
             Inl e \<Rightarrow> Inl e
           | Inr _ \<Rightarrow> Inr vals))"

text \<open>\<^verbatim>\<open>slices.Index\<close>: the first index of the element, \<open>-1\<close> (here \<open>None\<close>) without one; it is
  \<^const>\<open>GetIndex\<close>. The loop of \<^verbatim>\<open>getValues\<close> over \<^verbatim>\<open>cols\<close>, from index \<open>i\<close> on: the
  message of the first error names \<^verbatim>\<open>tdef.Cols[i]\<close>, that of the second \<^verbatim>\<open>c\<close>.\<close>

fun getValuesLoop :: "TableDef \<Rightarrow> Record \<Rightarrow> nat \<Rightarrow> string list \<Rightarrow> fault + Value list" where
  "getValuesLoop tdef rec i [] = Inr []"
| "getValuesLoop tdef rec i (c # cols) =
     (case Get rec c of
        Inl e \<Rightarrow> Inl e
      | Inr None \<Rightarrow>
          (if i < length (Cols tdef) then Inl (Error (''missing col.: '' @ Cols tdef ! i))
           else Inl Panic)
      | Inr (Some v) \<Rightarrow>
          (case GetIndex (Cols tdef) c of
             None \<Rightarrow> Inl Panic
           | Some j \<Rightarrow>
               if \<not> j < length (Types tdef) then Inl Panic
               else if Type v \<noteq> Types tdef ! j then Inl (Error (''bad column type: '' @ c))
               else
                 (case getValuesLoop tdef rec (Suc i) cols of
                    Inl e \<Rightarrow> Inl e
                  | Inr vals \<Rightarrow> Inr (v # vals))))"

definition getValues :: "TableDef \<Rightarrow> Record \<Rightarrow> string list \<Rightarrow> fault + Value list" where
  "getValues tdef rec cols = getValuesLoop tdef rec 0 cols"

section \<open>The ordered key-value store\<close>

text \<open>
  Modelled from the spec: the key-value store \<^verbatim>\<open>KV\<close>, its tree, the iterator
  \<^verbatim>\<open>BIter\<close>, \<^verbatim>\<open>cmpOk\<close>, the comparators \<^verbatim>\<open>CMP_*\<close> and the update modes \<^verbatim>\<open>MODE_*\<close>
  are declared in files of the repository that are not at hand. The specification gives
  their contract: keys compare by unsigned byte order;
  \<^verbatim>\<open>Update(key, value, mode)\<close> reports \<open>added\<close> and \<open>updated\<close>, with the modes
  insert-only (no effect on an existing key), update-only (no effect on a missing key)
  and upsert (unconditional); \<^verbatim>\<open>Seek(key, direction)\<close> returns an iterator with
  \<^verbatim>\<open>Valid\<close>, \<^verbatim>\<open>Next\<close>, \<^verbatim>\<open>Prev\<close> and \<^verbatim>\<open>Deref\<close>. The store is a list of entries with
  strictly ascending keys; it lives in memory and its operations never report an error.
\<close>

type_synonym KV = "(u8 list \<times> u8 list) list"

text \<open>Modelled from the spec: the sign of a comparator gives the direction (positive
  ascending, negative descending) and it is inclusive or exclusive. \<^verbatim>\<open>TableNew\<close> writes
  its rows with the zero mode and the specification has it persist them whether or not
  they exist, so the zero mode is upsert.\<close>

definition CMP_GE :: int where "CMP_GE = 3"
definition CMP_GT :: int where "CMP_GT = 2"
definition CMP_LT :: int where "CMP_LT = - 2"
definition CMP_LE :: int where "CMP_LE = - 3"

definition MODE_UPSERT :: int where "MODE_UPSERT = 0"
definition MODE_UPDATE_ONLY :: int where "MODE_UPDATE_ONLY = 1"
definition MODE_INSERT_ONLY :: int where "MODE_INSERT_ONLY = 2"

text \<open>Modelled from the spec: \<^verbatim>\<open>cmpOk(key, cmp, ref)\<close>, whether \<open>key\<close> satisfies the
  bound \<open>cmp\<close> against \<open>ref\<close>; a comparator that is none of the four is a fatal error.\<close>

definition cmpOk :: "u8 list \<Rightarrow> int \<Rightarrow> u8 list \<Rightarrow> fault + bool" where
  "cmpOk key cmp ref =
     (if cmp = CMP_GE then Inr (key \<ge> ref)
      else if cmp = CMP_GT then Inr (key > ref)
      else if cmp = CMP_LT then Inr (key < ref)
      else if cmp = CMP_LE then Inr (key \<le> ref)
      else Inl Panic)"

text \<open>Modelled from the spec: the lookup and the conditional update of the store.\<close>

fun kvLookup :: "KV \<Rightarrow> u8 list \<Rightarrow> u8 list option" where
  "kvLookup [] key = None"
| "kvLookup ((k, v) # kv) key = (if k = key then Some v else kvLookup kv key)"

fun kvPut :: "KV \<Rightarrow> u8 list \<Rightarrow> u8 list \<Rightarrow> KV" where
  "kvPut [] key val = [(key, val)]"
| "kvPut ((k, v) # kv) key val =
     (if key < k then (key, val) # (k, v) # kv
      else if key = k then (key, val) # kv
      else (k, v) # kvPut kv key val)"

record UpdateReq =
  Added :: bool
  Updated :: bool
  Key :: "u8 list"
  Val :: "u8 list"
  Mode :: int

definition kvUpdate :: "KV \<Rightarrow> UpdateReq \<Rightarrow> fault + (KV \<times> UpdateReq)" where
  "kvUpdate kv req =
     (let present = (kvLookup kv (Key req) \<noteq> None)
      in if Mode req = MODE_UPSERT then
           Inr (kvPut kv (Key req) (Val req), req\<lparr>Added := \<not> present, Updated := True\<rparr>)
         else if Mode req = MODE_UPDATE_ONLY then
           (if present then Inr (kvPut kv (Key req) (Val req), req\<lparr>Added := False, Updated := True\<rparr>)
            else Inr (kv, req\<lparr>Added := False, Updated := False\<rparr>))
         else if Mode req = MODE_INSERT_ONLY then
           (if present then Inr (kv, req\<lparr>Added := False, Updated := False\<rparr>)
            else Inr (kvPut kv (Key req) (Val req), req\<lparr>Added := True, Updated := True\<rparr>))
         else Inl Panic)"

text \<open>Modelled from the spec: an iterator is a position in the entries; it is valid on an
  entry and invalid before the first and after the last.\<close>

record BIter =
  entries :: KV
  pos :: int

definition iterValid :: "BIter \<Rightarrow> bool" where
  "iterValid it = (0 \<le> pos it \<and> pos it < int (length (entries it)))"

definition iterDeref :: "BIter \<Rightarrow> fault + (u8 list \<times> u8 list)" where
  "iterDeref it = (if iterValid it then Inr (entries it ! nat (pos it)) else Inl Panic)"

definition iterNext :: "BIter \<Rightarrow> BIter" where
  "iterNext it = it\<lparr>pos := pos it + 1\<rparr>"

definition iterPrev :: "BIter \<Rightarrow> BIter" where
  "iterPrev it = it\<lparr>pos := pos it - 1\<rparr>"

text \<open>Modelled from the spec: \<^verbatim>\<open>Seek(key, cmp)\<close> stands on the entry nearest to \<open>key\<close>
  that satisfies \<open>cmp\<close>: the first such entry for an ascending comparator, the last for
  a descending one, and on no entry when there is none.\<close>

fun seekFirst :: "KV \<Rightarrow> int \<Rightarrow> u8 list \<Rightarrow> fault + nat" where
  "seekFirst [] cmp key = Inr 0"
| "seekFirst ((k, v) # kv) cmp key =
     (case cmpOk k cmp key of
        Inl e \<Rightarrow> Inl e
      | Inr ok \<Rightarrow>
          if ok then Inr 0
          else (case seekFirst kv cmp key of Inl e \<Rightarrow> Inl e | Inr i \<Rightarrow> Inr (Suc i)))"

definition Seek :: "KV \<Rightarrow> u8 list \<Rightarrow> int \<Rightarrow> fault + BIter" where
  "Seek kv key cmp =
     (if cmp > 0 then
        (case seekFirst kv cmp key of
           Inl e \<Rightarrow> Inl e
         | Inr i \<Rightarrow> Inr \<lparr>entries = kv, pos = int i\<rparr>)
      else
        (case seekFirst (rev kv) cmp key of
           Inl e \<Rightarrow> Inl e
         | Inr i \<Rightarrow> Inr \<lparr>entries = kv, pos = int (length kv) - 1 - int i\<rparr>))"

section \<open>table.go: the database\<close>

text \<open>Of the struct \<^verbatim>\<open>DB\<close> the functions below use the store only.\<close>

record DB =
  kv :: KV

record Scanner =
  Cmp1 :: int
  Cmp2 :: int
  Key1 :: Record
  Key2 :: Record
  tdef :: "TableDef option"
  iter :: "BIter option"
  keyEnd :: "u8 list"

text \<open>\<^verbatim>\<open>Scanner.Valid\<close>, \<^verbatim>\<open>Scanner.Next\<close> and \<^verbatim>\<open>Scanner.Deref\<close>. A scanner that was never
  positioned has \<^verbatim>\<open>nil\<close> for its iterator and table definition; using them panics.\<close>

definition Valid :: "Scanner \<Rightarrow> fault + bool" where
  "Valid sc =
     (case iter sc of
        None \<Rightarrow> Inl Panic
      | Some it \<Rightarrow>
          if \<not> iterValid it then Inr False
          else
            (case iterDeref it of
               Inl e \<Rightarrow> Inl e
             | Inr (key, val) \<Rightarrow> cmpOk key (Cmp2 sc) (keyEnd sc)))"

definition Next :: "Scanner \<Rightarrow> fault + Scanner" where
  "Next sc =
     (case Valid sc of
        Inl e \<Rightarrow> Inl e
      | Inr ok \<Rightarrow>
          if \<not> ok then Inl Panic
          else
            (case iter sc of
               None \<Rightarrow> Inl Panic
             | Some it \<Rightarrow>
                 if Cmp1 sc > 0 then Inr (sc\<lparr>iter := Some (iterNext it)\<rparr>)
                 else Inr (sc\<lparr>iter := Some (iterPrev it)\<rparr>)))"

text \<open>A slice expression \<^verbatim>\<open>vals[:n]\<close> or \<^verbatim>\<open>vals[n:]\<close> panics unless \<open>0 \<le> n \<le> len(vals)\<close>
  (the slices here are as long as their capacity).\<close>

definition sliceOk :: "'a list \<Rightarrow> int \<Rightarrow> bool" where
  "sliceOk vals n = (0 \<le> n \<and> n \<le> int (length vals))"

definition Deref :: "Scanner \<Rightarrow> Record \<Rightarrow> fault + Record" where
  "Deref sc rec =
     (case Valid sc of
        Inl e \<Rightarrow> Inl e
      | Inr ok \<Rightarrow>
          if \<not> ok then Inl Panic
          else
            (case (iter sc, tdef sc) of
               (Some it, Some td) \<Rightarrow>
                 (case iterDeref it of
                    Inl e \<Rightarrow> Inl e
                  | Inr (key, val) \<Rightarrow>
                      (let cells = map typedValue (Types td)
                       in if \<not> sliceOk cells (PKeys td) then Inl Panic
                          else
                            (case decodeKey key (take (nat (PKeys td)) cells) of
                               Inl e \<Rightarrow> Inl e
                             | Inr kvals \<Rightarrow>
                                 (case decodeValues val (drop (nat (PKeys td)) cells) of
                                    Inl e \<Rightarrow> Inl e
                                  | Inr vvals \<Rightarrow> Inr \<lparr>Record.Cols = Cols td, Vals = kvals @ vvals\<rparr>))))
             | _ \<Rightarrow> Inl Panic))"

text \<open>
  The functions below return an \<^verbatim>\<open>error\<close> next to the state they have changed in
  place: the model returns \<open>Inl Panic\<close> for a panic and otherwise the error (\<open>None\<close> is
  \<^verbatim>\<open>nil\<close>), the other results and the state as the call leaves it.

  \<^verbatim>\<open>dbScan\<close>: the check of the comparators comes first; then \<^verbatim>\<open>req.tdef\<close> is set, the
  two boundary records are checked, the keys encoded and the iterator positioned.
\<close>

definition dbScan :: "DB \<Rightarrow> TableDef \<Rightarrow> Scanner \<Rightarrow> fault + (string option \<times> Scanner)" where
  "dbScan db td req =
     (if \<not> ((Cmp1 req > 0 \<and> Cmp2 req < 0) \<or> (Cmp1 req < 0 \<and> Cmp2 req > 0)) then
        Inr (Some ''bad range'', req)
      else
        (let req1 = req\<lparr>tdef := Some td\<rparr>
         in case checkRecord td (Key1 req1) (PKeys td) of
              Inl Panic \<Rightarrow> Inl Panic
            | Inl (Error m) \<Rightarrow> Inr (Some m, req1)
            | Inr val1 \<Rightarrow>
                (case checkRecord td (Key2 req1) (PKeys td) of
                   Inl Panic \<Rightarrow> Inl Panic
                 | Inl (Error m) \<Rightarrow> Inr (Some m, req1)
                 | Inr val2 \<Rightarrow>
                     if \<not> sliceOk val1 (PKeys td) then Inl Panic
                     else
                       (case encodeKey [] (Prefix td) (take (nat (PKeys td)) val1) of
                          Inl e \<Rightarrow> Inl Panic
                        | Inr keyStart \<Rightarrow>
                            if \<not> sliceOk val2 (PKeys td) then Inl Panic
                            else
                              (case encodeKey [] (Prefix td) (take (nat (PKeys td)) val2) of
                                 Inl e \<Rightarrow> Inl Panic
                               | Inr keyEnd' \<Rightarrow>
                                   (case Seek (kv db) keyStart (Cmp1 req1) of
                                      Inl e \<Rightarrow> Inl Panic
                                    | Inr it \<Rightarrow>
                                        Inr (None, req1\<lparr>keyEnd := keyEnd', iter := Some it\<rparr>)))))))"

text \<open>\<^verbatim>\<open>dbGet\<close>: \<^verbatim>\<open>tdef.Indexes[0]\<close> panics on an empty \<^verbatim>\<open>Indexes\<close>. The row is written
  into \<^verbatim>\<open>rec\<close> only when it is found.\<close>

definition dbGet :: "DB \<Rightarrow> TableDef \<Rightarrow> Record \<Rightarrow> fault + ((bool \<times> string option) \<times> Record)" where
  "dbGet db td rec =
     (case Indexes td of
        [] \<Rightarrow> Inl Panic
      | index0 # _ \<Rightarrow>
          (case getValues td rec index0 of
             Inl Panic \<Rightarrow> Inl Panic
           | Inl (Error m) \<Rightarrow> Inr ((False, Some m), rec)
           | Inr vals \<Rightarrow>
               (let sc = \<lparr>Cmp1 = CMP_GE, Cmp2 = CMP_LE,
                          Key1 = \<lparr>Record.Cols = index0, Vals = vals\<rparr>,
                          Key2 = \<lparr>Record.Cols = index0, Vals = vals\<rparr>,
                          tdef = None, iter = None, keyEnd = []\<rparr>
                in case dbScan db td sc of
                     Inl e \<Rightarrow> Inl Panic
                   | Inr (Some m, sc') \<Rightarrow> Inr ((False, Some m), rec)
                   | Inr (None, sc') \<Rightarrow>
                       (case Valid sc' of
                          Inl e \<Rightarrow> Inl Panic
                        | Inr ok \<Rightarrow>
                            if \<not> ok then Inr ((False, None), rec)
                            else
                              (case Deref sc' rec of
                                 Inl e \<Rightarrow> Inl Panic
                               | Inr rec' \<Rightarrow> Inr ((True, None), rec'))))))"

definition TABLE_PREFIX_MIN :: u32 where "TABLE_PREFIX_MIN = 100"

definition tableDefCheck :: "TableDef \<Rightarrow> fault + unit" where
  "tableDefCheck td =
     (let bad = (Name td = [] \<or> length (Cols td) = 0);
          bad = (bad \<or> length (Cols td) \<noteq> length (Types td));
          bad = (bad \<or> \<not> (1 \<le> PKeys td \<and> PKeys td \<le> int (length (Cols td))))
      in if bad then Inl (Error (''bad table schema: '' @ Name td)) else Inr ())"

record DBUpdateReq =
  Record :: Record
  Mode :: int
  Updated :: bool
  Added :: bool

text \<open>\<^verbatim>\<open>dbUpdate\<close>. The call of the store reports no error in this model.\<close>

definition dbUpdate :: "DB \<Rightarrow> TableDef \<Rightarrow> DBUpdateReq \<Rightarrow> fault + ((bool \<times> string option) \<times> DB \<times> DBUpdateReq)" where
  "dbUpdate db td dbreq =
     (case checkRecord td (Record dbreq) (int (length (Cols td))) of
        Inl Panic \<Rightarrow> Inl Panic
      | Inl (Error m) \<Rightarrow> Inr ((False, Some m), db, dbreq)
      | Inr values \<Rightarrow>
          if \<not> sliceOk values (PKeys td) then Inl Panic
          else
            (case encodeKey [] (Prefix td) (take (nat (PKeys td)) values) of
               Inl e \<Rightarrow> Inl Panic
             | Inr key \<Rightarrow>
                 (case encodeValues [] (drop (nat (PKeys td)) values) of
                    Inl e \<Rightarrow> Inl Panic
                  | Inr val \<Rightarrow>
                      (case kvUpdate (kv db)
                              \<lparr>UpdateReq.Added = False, UpdateReq.Updated = False, Key = key,
                               Val = val, UpdateReq.Mode = DBUpdateReq.Mode dbreq\<rparr> of
                         Inl e \<Rightarrow> Inl Panic
                       | Inr (kv', req) \<Rightarrow>
                           Inr ((UpdateReq.Updated req, None), db\<lparr>kv := kv'\<rparr>,
                                dbreq\<lparr>Added := UpdateReq.Added req,
                                      Updated := UpdateReq.Updated req\<rparr>)))))"

text \<open>\<^verbatim>\<open>binary.LittleEndian\<close>: \<^verbatim>\<open>Uint32\<close> reads the first four bytes of a slice and
  \<^verbatim>\<open>PutUint32\<close> overwrites them; both panic on a shorter slice.\<close>

definition LittleEndian_Uint32 :: "u8 list \<Rightarrow> u32" where
  "LittleEndian_Uint32 b = ucast (b ! 0) OR push_bit 8 (ucast (b ! 1))
     OR push_bit 16 (ucast (b ! 2)) OR push_bit 24 (ucast (b ! 3))"

definition LittleEndian_PutUint32 :: "u8 list \<Rightarrow> u32 \<Rightarrow> u8 list" where
  "LittleEndian_PutUint32 b v =
     [ucast v, ucast (drop_bit 8 v), ucast (drop_bit 16 v), ucast (drop_bit 24 v)] @ drop 4 b"

text \<open>
  \<^verbatim>\<open>TableNew\<close>. \<^verbatim>\<open>json.Marshal\<close> is a parameter of the model. \<^verbatim>\<open>meta.Get("val").Str\<close> is
  the byte string of the first cell named \<^verbatim>\<open>val\<close>; the prefix is read from it and the
  next prefix is written into it in place.
\<close>

definition TableNew :: "(TableDef \<Rightarrow> u8 list) \<Rightarrow> DB \<Rightarrow> TableDef \<Rightarrow> fault + (string option \<times> DB \<times> TableDef)" where
  "TableNew marshal db td =
     (case tableDefCheck td of
        Inl Panic \<Rightarrow> Inl Panic
      | Inl (Error m) \<Rightarrow> Inr (Some m, db, td)
      | Inr _ \<Rightarrow>
          (let table = AddStr Record0 ''name'' (bytes (Name td))
           in case dbGet db TDEF_TABLE table of
                Inl e \<Rightarrow> Inl Panic
              | Inr ((ok, Some m), table') \<Rightarrow> Inl Panic
              | Inr ((ok, None), table') \<Rightarrow>
                  if ok then Inr (Some (''table exists: '' @ Name td), db, td)
                  else if Prefix td \<noteq> 0 then Inl Panic
                  else
                    (let td1 = td\<lparr>Prefix := TABLE_PREFIX_MIN\<rparr>;
                         meta = AddStr Record0 ''key'' (bytes ''next_prefix'')
                     in case dbGet db TDEF_META meta of
                          Inl e \<Rightarrow> Inl Panic
                        | Inr ((ok, Some m), meta') \<Rightarrow> Inl Panic
                        | Inr ((ok, None), meta') \<Rightarrow>
                            (case
                               (if ok then
                                  (case GetIndex (Record.Cols meta') ''val'' of
                                     None \<Rightarrow> Inl Panic
                                   | Some i \<Rightarrow>
                                       if \<not> i < length (Vals meta') then Inl Panic
                                       else if length (Str (Vals meta' ! i)) < 4 then Inl Panic
                                       else
                                         (let p = LittleEndian_Uint32 (Str (Vals meta' ! i))
                                          in if p > TABLE_PREFIX_MIN
                                             then Inr (td1\<lparr>Prefix := p\<rparr>, meta')
                                             else Inl Panic))
                                else Inr (td1, AddStr meta' ''val'' (replicate 4 0))) of
                               Inl e \<Rightarrow> Inl Panic
                             | Inr (td2, meta2) \<Rightarrow>
                                 (case GetIndex (Record.Cols meta2) ''val'' of
                                    None \<Rightarrow> Inl Panic
                                  | Some i \<Rightarrow>
                                      if \<not> i < length (Vals meta2) then Inl Panic
                                      else if length (Str (Vals meta2 ! i)) < 4 then Inl Panic
                                      else
                                        (let cell = Vals meta2 ! i;
                                             meta3 = meta2\<lparr>Vals := (Vals meta2)
                                               [i := cell\<lparr>Str := LittleEndian_PutUint32 (Str cell) (Prefix td2 + 1)\<rparr>]\<rparr>
                                         in case dbUpdate db TDEF_META
                                                   \<lparr>Record = meta3, Mode = 0, Updated = False, Added = False\<rparr> of
                                              Inl e \<Rightarrow> Inl Panic
                                            | Inr ((upd, Some m), db1, req1) \<Rightarrow> Inr (Some m, db1, td2)
                                            | Inr ((upd, None), db1, req1) \<Rightarrow>
                                                (let val = marshal td2;
                                                     table2 = AddStr table' ''def'' val
                                                 in case dbUpdate db1 TDEF_TABLE
                                                           \<lparr>Record = table2, Mode = 0, Updated = False, Added = False\<rparr> of
                                                      Inl e \<Rightarrow> Inl Panic
                                                    | Inr ((upd, err), db2, req2) \<Rightarrow> Inr (err, db2, td2))))))))"

subsection \<open>Sequences of calls\<close>

text \<open>A sequence of \<^verbatim>\<open>TableNew\<close> calls, one per table definition, each on the database
  the previous call left. It stops at the first call that returns an error; the result
  holds the table definitions as the successful calls left them (with their prefix).\<close>

fun tableNewAll :: "(TableDef \<Rightarrow> u8 list) \<Rightarrow> DB \<Rightarrow> TableDef list \<Rightarrow> fault + (string option \<times> DB \<times> TableDef list)" where
  "tableNewAll marshal db [] = Inr (None, db, [])"
| "tableNewAll marshal db (td # tds) =
     (case TableNew marshal db td of
        Inl e \<Rightarrow> Inl e
      | Inr (Some m, db', td') \<Rightarrow> Inr (Some m, db', [])
      | Inr (None, db', td') \<Rightarrow>
          (case tableNewAll marshal db' tds of
             Inl e \<Rightarrow> Inl e
           | Inr (err, db'', out) \<Rightarrow> Inr (err, db'', td' # out)))"

text \<open>\<^verbatim>\<open>Insert\<close> for each record in turn (\<^verbatim>\<open>dbUpdate\<close> in mode \<^verbatim>\<open>MODE_INSERT_ONLY\<close>),
  stopping at the first error.\<close>

fun insertAll :: "DB \<Rightarrow> TableDef \<Rightarrow> Record list \<Rightarrow> fault + DB" where
  "insertAll db td [] = Inr db"
| "insertAll db td (rec # recs) =
     (case dbUpdate db td \<lparr>Record = rec, Mode = MODE_INSERT_ONLY, Updated = False, Added = False\<rparr> of
        Inl e \<Rightarrow> Inl e
      | Inr ((added, Some m), db', req) \<Rightarrow> Inl (Error m)
      | Inr ((added, None), db', req) \<Rightarrow> insertAll db' td recs)"

text \<open>The caller's loop over a scanner: while \<^verbatim>\<open>Valid\<close>, \<^verbatim>\<open>Deref\<close> a row and move to the
  \<^verbatim>\<open>Next\<close>. The first argument bounds the number of rounds; \<open>None\<close> says the bound was
  reached before the scanner became invalid.\<close>

fun scanRows :: "nat \<Rightarrow> Scanner \<Rightarrow> (fault + Record list) option" where
  "scanRows 0 sc = None"
| "scanRows (Suc n) sc =
     (case Valid sc of
        Inl e \<Rightarrow> Some (Inl e)
      | Inr ok \<Rightarrow>
          if \<not> ok then Some (Inr [])
          else
            (case Deref sc Record0 of
               Inl e \<Rightarrow> Some (Inl e)
             | Inr row \<Rightarrow>
                 (case Next sc of
                    Inl e \<Rightarrow> Some (Inl e)
                  | Inr sc' \<Rightarrow>
                      (case scanRows n sc' of
                         None \<Rightarrow> None
                       | Some (Inl e) \<Rightarrow> Some (Inl e)
                       | Some (Inr rows) \<Rightarrow> Some (Inr (row # rows))))))"

subsection \<open>An example table\<close>

text \<open>A stand-in for \<^verbatim>\<open>json.Marshal\<close> in the examples, and a table with an INT64
  primary key \<open>id\<close> and a BYTES column \<open>name\<close>.\<close>

definition exampleMarshal :: "TableDef \<Rightarrow> u8 list" where
  "exampleMarshal td = bytes (Name td)"

definition exampleTable :: TableDef where
  "exampleTable = \<lparr>Name = ''t'', Types = [TYPE_INT64, TYPE_BYTES], Cols = [''id'', ''name''],
     PKeys = 1, Prefix = 0, Indexes = [[''id'']]\<rparr>"

definition exampleRow :: "i64 \<Rightarrow> string \<Rightarrow> Record" where
  "exampleRow i s = AddStr (AddInt64 Record0 ''id'' i) ''name'' (bytes s)"

text \<open>On a fresh database: create the example table, insert the rows with the keys 5, 1, 3
  and 2, in that order, then scan from \<open>k1\<close> under \<open>cmp1\<close> to \<open>k2\<close> under \<open>cmp2\<close> and
  collect the rows. The result is the error of \<^verbatim>\<open>dbScan\<close> and the rows of the loop.\<close>

definition exampleScan :: "int \<Rightarrow> i64 \<Rightarrow> int \<Rightarrow> i64 \<Rightarrow> (string option \<times> (fault + Record list) option) option" where
  "exampleScan cmp1 k1 cmp2 k2 =
     (case TableNew exampleMarshal \<lparr>kv = []\<rparr> exampleTable of
        Inr (None, db, td) \<Rightarrow>
          (case insertAll db td [exampleRow 5 ''e'', exampleRow 1 ''a'', exampleRow 3 ''c'', exampleRow 2 ''b''] of
             Inr db' \<Rightarrow>
               (case dbScan db' td \<lparr>Cmp1 = cmp1, Cmp2 = cmp2, Key1 = AddInt64 Record0 ''id'' k1,
                                     Key2 = AddInt64 Record0 ''id'' k2, tdef = None, iter = None, keyEnd = []\<rparr> of
                  Inr (None, sc) \<Rightarrow> Some (None, scanRows 10 sc)
                | Inr (Some m, sc) \<Rightarrow> Some (Some m, None)
                | _ \<Rightarrow> None)
           | _ \<Rightarrow> None)
      | _ \<Rightarrow> None)"

text \<open>The store that \<^verbatim>\<open>TableNew\<close> and the four inserts of \<^const>\<open>exampleScan\<close> leave: the
  row \<open>next_prefix\<close> of \<^verbatim>\<open>@meta\<close>, the row of the table in \<^verbatim>\<open>@table\<close>, and the four rows
  under the prefix 100.\<close>

definition exampleStore :: DB where
  "exampleStore =
     \<lparr>kv = [([0, 0, 0, 1, 110, 101, 120, 116, 95, 112, 114, 101, 102, 105, 120, 0],
             [101, 1, 1, 1, 1, 1, 1, 0]),
            ([0, 0, 0, 2, 116, 0], [116, 0]),
            ([0, 0, 0, 100, 128, 0, 0, 0, 0, 0, 0, 1], [97, 0]),
            ([0, 0, 0, 100, 128, 0, 0, 0, 0, 0, 0, 2], [98, 0]),
            ([0, 0, 0, 100, 128, 0, 0, 0, 0, 0, 0, 3], [99, 0]),
            ([0, 0, 0, 100, 128, 0, 0, 0, 0, 0, 0, 5], [101, 0])]\<rparr>"

subsection \<open>Rows in the store\<close>

text \<open>A cell as \<^verbatim>\<open>AddStr\<close> and \<^verbatim>\<open>AddInt64\<close> build it: a BYTES value with its string or an
  INT64 value with its number, the other field zero. A row of a table has one such cell
  per column, of the column's type.\<close>

definition typedCell :: "Value \<Rightarrow> bool" where
  "typedCell v \<longleftrightarrow> (Type v = TYPE_BYTES \<and> I64 v = 0) \<or> (Type v = TYPE_INT64 \<and> Str v = [])"

definition tableRow :: "TableDef \<Rightarrow> Value list \<Rightarrow> bool" where
  "tableRow td vals \<longleftrightarrow> map Type vals = Types td \<and> list_all typedCell vals"

text \<open>The store holds the row: under the key that \<^verbatim>\<open>dbUpdate\<close> encodes from the table's
  prefix and the primary-key cells it has the value that \<^verbatim>\<open>dbUpdate\<close> encodes from the
  other cells.\<close>

definition holdsRow :: "DB \<Rightarrow> TableDef \<Rightarrow> Value list \<Rightarrow> bool" where
  "holdsRow db td vals =
     (case encodeKey [] (Prefix td) (take (nat (PKeys td)) vals) of
        Inl e \<Rightarrow> False
      | Inr key \<Rightarrow>
          (case encodeValues [] (drop (nat (PKeys td)) vals) of
             Inl e \<Rightarrow> False
           | Inr val \<Rightarrow> kvLookup (kv db) key = Some val))"

text \<open>What \<^verbatim>\<open>Scanner.Deref\<close> makes of the entry its iterator stands on, and the key of the
  row with the INT64 primary key \<open>i\<close> under the prefix \<open>p\<close>.\<close>

definition decodeRow :: "TableDef \<Rightarrow> u8 list \<times> u8 list \<Rightarrow> fault + Record" where
  "decodeRow td e =
     (let cells = map typedValue (Types td)
      in if \<not> sliceOk cells (PKeys td) then Inl Panic
         else
           (case decodeKey (fst e) (take (nat (PKeys td)) cells) of
              Inl x \<Rightarrow> Inl x
            | Inr kvals \<Rightarrow>
                (case decodeValues (snd e) (drop (nat (PKeys td)) cells) of
                   Inl x \<Rightarrow> Inl x
                 | Inr vvals \<Rightarrow> Inr \<lparr>Record.Cols = Cols td, Vals = kvals @ vvals\<rparr>)))"

definition rowKey :: "u32 \<Rightarrow> i64 \<Rightarrow> u8 list" where
  "rowKey p i = PutUint32 p @ PutUint64 (i + push_bit 63 1)"

subsection \<open>Auxiliary notions for the proofs about the database\<close>

text \<open>The key of the row \<open>next_prefix\<close> of \<^verbatim>\<open>@meta\<close>, and the invariant of the store between
  \<^verbatim>\<open>TableNew\<close> calls: its keys ascend, and the row holds the next prefix \<open>c\<close> (or is absent
  while the next prefix is the first one).\<close>

definition metaKey :: "u8 list" where
  "metaKey = PutUint32 (Prefix TDEF_META) @ escapeString (bytes ''next_prefix'') @ [0]"

definition metaInv :: "DB \<Rightarrow> u32 \<Rightarrow> bool" where
  "metaInv db c \<longleftrightarrow>
     sorted_wrt (<) (map fst (kv db)) \<and>
     (case kvLookup (kv db) metaKey of
        None \<Rightarrow> c = TABLE_PREFIX_MIN
      | Some v \<Rightarrow> v = escapeString (LittleEndian_PutUint32 (replicate 4 0) c) @ [0])"

section \<open>The free list\<close>

text \<open>
  The page size \<^verbatim>\<open>BTREE_PAGE_SIZE\<close> is declared in a file that is not at hand. It is the
  parameter \<open>psz\<close> of the functions below; a list node needs \<open>psz \<ge> 16\<close>.
\<close>

definition FREE_LIST_HEADER :: nat where "FREE_LIST_HEADER = 8"

definition FREE_LIST_CAP :: "nat \<Rightarrow> nat" where
  "FREE_LIST_CAP psz = (psz - FREE_LIST_HEADER) div 8"

subsection \<open>List nodes\<close>

text \<open>\<^verbatim>\<open>binary.LittleEndian\<close>: \<^verbatim>\<open>Uint64\<close> reads the first eight bytes of a slice and
  \<^verbatim>\<open>PutUint64\<close> overwrites them; both panic on a shorter slice, which the callers below
  check.\<close>

definition LittleEndian_Uint64 :: "u8 list \<Rightarrow> u64" where
  "LittleEndian_Uint64 b = ucast (b ! 0) OR push_bit 8 (ucast (b ! 1))
     OR push_bit 16 (ucast (b ! 2)) OR push_bit 24 (ucast (b ! 3))
     OR push_bit 32 (ucast (b ! 4)) OR push_bit 40 (ucast (b ! 5))
     OR push_bit 48 (ucast (b ! 6)) OR push_bit 56 (ucast (b ! 7))"

definition LittleEndian_PutUint64 :: "u8 list \<Rightarrow> u64 \<Rightarrow> u8 list" where
  "LittleEndian_PutUint64 b v =
     [ucast v, ucast (drop_bit 8 v), ucast (drop_bit 16 v), ucast (drop_bit 24 v),
      ucast (drop_bit 32 v), ucast (drop_bit 40 v), ucast (drop_bit 48 v),
      ucast (drop_bit 56 v)] @ drop 8 b"

text \<open>An \<^verbatim>\<open>LNode\<close> is the byte slice of a page: the next pointer in bytes 0 to 7, then
  the slots of 8 bytes each. The setters write into the slice; the model returns the
  slice as written.\<close>

type_synonym LNode = "u8 list"

definition getNext :: "LNode \<Rightarrow> fault + u64" where
  "getNext node = (if length node < 8 then Inl Panic else Inr (LittleEndian_Uint64 (take 8 node)))"

definition setNext :: "LNode \<Rightarrow> u64 \<Rightarrow> fault + LNode" where
  "setNext node next =
     (if length node < 8 then Inl Panic
      else Inr (LittleEndian_PutUint64 (take 8 node) next @ drop 8 node))"

definition getPtr :: "LNode \<Rightarrow> nat \<Rightarrow> fault + u64" where
  "getPtr node idx =
     (let offset = FREE_LIST_HEADER + 8 * idx
      in if length node < offset + 8 then Inl Panic
         else Inr (LittleEndian_Uint64 (drop offset node)))"

definition setPtr :: "nat \<Rightarrow> LNode \<Rightarrow> nat \<Rightarrow> u64 \<Rightarrow> fault + LNode" where
  "setPtr psz node idx ptr =
     (if \<not> idx < FREE_LIST_CAP psz then Inl Panic
      else
        (let offset = FREE_LIST_HEADER + 8 * idx
         in if length node < offset + 8 then Inl Panic
            else Inr (take offset node @ LittleEndian_PutUint64 (drop offset node) ptr)))"

subsection \<open>The list and its page store\<close>

text \<open>
  The struct \<^verbatim>\<open>FreeList\<close> holds three callbacks into the page store and five counters.

  Modelled from the spec: the page store behind the callbacks \<^verbatim>\<open>get\<close>, \<^verbatim>\<open>set\<close> and
  \<^verbatim>\<open>new\<close> is not at hand. The specification gives the interface
  \<^verbatim>\<open>get(pageId) -> bytes\<close>, \<^verbatim>\<open>set(pageId) -> mutable bytes\<close>, \<^verbatim>\<open>append(bytes) -> pageId\<close>.
  Here the store is the sequence of its pages and a page identifier is a position in it:
  \<^verbatim>\<open>get\<close> and \<^verbatim>\<open>set\<close> panic on an identifier beyond the last page, a write through the
  slice \<^verbatim>\<open>set\<close> returns changes the page, and \<^verbatim>\<open>new\<close> appends a page and returns its
  position.
\<close>

record FreeList =
  pages :: "LNode list"
  headPage :: u64
  headSeq :: u64
  tailPage :: u64
  tailSeq :: u64
  maxSeq :: u64

definition flGet :: "FreeList \<Rightarrow> u64 \<Rightarrow> fault + LNode" where
  "flGet fl p = (if unat p < length (pages fl) then Inr (pages fl ! unat p) else Inl Panic)"

text \<open>\<^verbatim>\<open>LNode(fl.set(p)).setX(...)\<close>: the page \<open>p\<close> after the write \<open>w\<close>.\<close>

definition flSet :: "FreeList \<Rightarrow> u64 \<Rightarrow> (LNode \<Rightarrow> fault + LNode) \<Rightarrow> fault + FreeList" where
  "flSet fl p w =
     (case flGet fl p of
        Inl e \<Rightarrow> Inl e
      | Inr node \<Rightarrow>
          (case w node of
             Inl e \<Rightarrow> Inl e
           | Inr node' \<Rightarrow> Inr (fl\<lparr>pages := (pages fl)[unat p := node']\<rparr>)))"

definition flNew :: "FreeList \<Rightarrow> LNode \<Rightarrow> u64 \<times> FreeList" where
  "flNew fl node = (of_nat (length (pages fl)), fl\<lparr>pages := pages fl @ [node]\<rparr>)"

definition seq2idx :: "nat \<Rightarrow> u64 \<Rightarrow> nat" where
  "seq2idx psz seq = unat seq mod FREE_LIST_CAP psz"

definition SetMaxSeq :: "FreeList \<Rightarrow> FreeList" where
  "SetMaxSeq fl = fl\<lparr>maxSeq := tailSeq fl\<rparr>"

text \<open>\<^verbatim>\<open>flPop\<close> returns \<open>(ptr, head)\<close> and the list as it leaves it.\<close>

definition flPop :: "nat \<Rightarrow> FreeList \<Rightarrow> fault + (u64 \<times> u64 \<times> FreeList)" where
  "flPop psz fl =
     (if headSeq fl = maxSeq fl then Inr (0, 0, fl)
      else
        (case flGet fl (headPage fl) of
           Inl e \<Rightarrow> Inl e
         | Inr node \<Rightarrow>
             (case getPtr node (seq2idx psz (headSeq fl)) of
                Inl e \<Rightarrow> Inl e
              | Inr ptr \<Rightarrow>
                  (let fl1 = fl\<lparr>headSeq := headSeq fl + 1\<rparr>
                   in if seq2idx psz (headSeq fl1) = 0 then
                        (case getNext node of
                           Inl e \<Rightarrow> Inl e
                         | Inr nxt \<Rightarrow>
                             if nxt = 0 then Inl Panic
                             else Inr (ptr, headPage fl1, fl1\<lparr>headPage := nxt\<rparr>))
                      else Inr (ptr, 0, fl1)))))"

definition PushTail :: "nat \<Rightarrow> FreeList \<Rightarrow> u64 \<Rightarrow> fault + FreeList" where
  "PushTail psz fl ptr =
     (case flSet fl (tailPage fl) (\<lambda>node. setPtr psz node (seq2idx psz (tailSeq fl)) ptr) of
        Inl e \<Rightarrow> Inl e
      | Inr fl1 \<Rightarrow>
          (let fl2 = fl1\<lparr>tailSeq := tailSeq fl1 + 1\<rparr>
           in if seq2idx psz (tailSeq fl2) = 0 then
                (case flPop psz fl2 of
                   Inl e \<Rightarrow> Inl e
                 | Inr (next, head, fl3) \<Rightarrow>
                     (let (next', fl4) =
                            (if next = 0 then flNew fl3 (replicate psz 0) else (next, fl3))
                      in case flSet fl4 (tailPage fl4) (\<lambda>node. setNext node next') of
                           Inl e \<Rightarrow> Inl e
                         | Inr fl5 \<Rightarrow>
                             (let fl6 = fl5\<lparr>tailPage := next'\<rparr>
                              in if head \<noteq> 0 then
                                   (case flSet fl6 (tailPage fl6) (\<lambda>node. setPtr psz node 0 head) of
                                      Inl e \<Rightarrow> Inl e
                                    | Inr fl7 \<Rightarrow> Inr (fl7\<lparr>tailSeq := tailSeq fl7 + 1\<rparr>))
                                 else Inr fl6)))
              else Inr fl2))"

definition PopHead :: "nat \<Rightarrow> FreeList \<Rightarrow> fault + (u64 \<times> FreeList)" where
  "PopHead psz fl =
     (case flPop psz fl of
        Inl e \<Rightarrow> Inl e
      | Inr (ptr, head, fl1) \<Rightarrow>
          if head \<noteq> 0 then
            (case PushTail psz fl1 head of
               Inl e \<Rightarrow> Inl e
             | Inr fl2 \<Rightarrow> Inr (ptr, fl2))
          else Inr (ptr, fl1))"

subsection \<open>Sequences of free-list operations\<close>

datatype flOp = Push u64 | Pop | SetMax

text \<open>The operations in turn; the result holds the list after them and what the
  \<^verbatim>\<open>PopHead\<close> calls returned, in call order.\<close>

fun flRun :: "nat \<Rightarrow> FreeList \<Rightarrow> flOp list \<Rightarrow> fault + (FreeList \<times> u64 list)" where
  "flRun psz fl [] = Inr (fl, [])"
| "flRun psz fl (Push ptr # ops) =
     (case PushTail psz fl ptr of
        Inl e \<Rightarrow> Inl e
      | Inr fl' \<Rightarrow> flRun psz fl' ops)"
| "flRun psz fl (Pop # ops) =
     (case PopHead psz fl of
        Inl e \<Rightarrow> Inl e
      | Inr (ptr, fl') \<Rightarrow>
          (case flRun psz fl' ops of
             Inl e \<Rightarrow> Inl e
           | Inr (fl'', ptrs) \<Rightarrow> Inr (fl'', ptr # ptrs)))"
| "flRun psz fl (SetMax # ops) = flRun psz (SetMaxSeq fl) ops"

text \<open>A list on a store of \<open>n\<close> zeroed pages whose only node is page \<open>h\<close>.\<close>

definition flFresh :: "nat \<Rightarrow> nat \<Rightarrow> u64 \<Rightarrow> FreeList" where
  "flFresh psz n h = \<lparr>pages = replicate n (replicate psz 0), headPage = h, headSeq = 0,
     tailPage = h, tailSeq = 0, maxSeq = 0\<rparr>"

subsection \<open>Auxiliary notions for the proofs about the free list\<close>

text \<open>The order of the three counters, read as unsigned 64-bit numbers.\<close>

definition seqOrdered :: "FreeList \<Rightarrow> bool" where
  "seqOrdered fl \<longleftrightarrow> headSeq fl \<le> maxSeq fl \<and> maxSeq fl \<le> tailSeq fl"

text \<open>What a node holds, its next pointer and its slot \<open>idx\<close>, and the node after a write
  into a slot or into the next pointer. On a node that is long enough these are the results
  of \<^const>\<open>getNext\<close>, \<^const>\<open>getPtr\<close>, \<^const>\<open>setPtr\<close> and \<^const>\<open>setNext\<close>.\<close>

definition nodeNext :: "LNode \<Rightarrow> u64" where
  "nodeNext node = LittleEndian_Uint64 (take 8 node)"

definition nodeSlot :: "LNode \<Rightarrow> nat \<Rightarrow> u64" where
  "nodeSlot node idx = LittleEndian_Uint64 (drop (FREE_LIST_HEADER + 8 * idx) node)"

definition putSlot :: "LNode \<Rightarrow> nat \<Rightarrow> u64 \<Rightarrow> LNode" where
  "putSlot node idx ptr =
     take (FREE_LIST_HEADER + 8 * idx) node @
     LittleEndian_PutUint64 (drop (FREE_LIST_HEADER + 8 * idx) node) ptr"

definition putNext :: "LNode \<Rightarrow> u64 \<Rightarrow> LNode" where
  "putNext node next = LittleEndian_PutUint64 (take 8 node) next @ drop 8 node"

text \<open>
  The list as a queue. A view holds the three counters as natural numbers, the number of
  pages of the store, the chain of node pages from the head node to the tail node, and the
  items at the positions \<open>headSeq\<close> to \<open>tailSeq - 1\<close>. The operations \<open>vPop\<close>, \<open>vPush\<close> and
  \<open>vPopHead\<close> follow \<^const>\<open>flPop\<close>, \<^const>\<open>PushTail\<close> and \<^const>\<open>PopHead\<close> step by step:
  at a rollover of the tail the next node is the item taken at the head or, without one,
  a new page, and an exhausted head node goes back into the list as an item.
\<close>

record flView =
  vHead :: nat
  vMax :: nat
  vTail :: nat
  vPages :: nat
  vNodes :: "u64 list"
  vItems :: "u64 list"

definition vPop :: "nat \<Rightarrow> flView \<Rightarrow> u64 \<times> u64 \<times> flView" where
  "vPop cap v =
     (if vHead v = vMax v then (0, 0, v)
      else if Suc (vHead v) mod cap = 0 then
        (hd (vItems v), hd (vNodes v),
         v\<lparr>vHead := Suc (vHead v), vItems := tl (vItems v), vNodes := tl (vNodes v)\<rparr>)
      else (hd (vItems v), 0, v\<lparr>vHead := Suc (vHead v), vItems := tl (vItems v)\<rparr>))"

definition vPush :: "nat \<Rightarrow> flView \<Rightarrow> u64 \<Rightarrow> flView" where
  "vPush cap v ptr =
     (let v2 = v\<lparr>vItems := vItems v @ [ptr], vTail := Suc (vTail v)\<rparr>
      in if vTail v2 mod cap = 0 then
           (case vPop cap v2 of
              (next, head, v3) \<Rightarrow>
                (let (next', v4) =
                       (if next = 0 then (of_nat (vPages v3), v3\<lparr>vPages := Suc (vPages v3)\<rparr>)
                        else (next, v3));
                     v6 = v4\<lparr>vNodes := vNodes v4 @ [next']\<rparr>
                 in if head \<noteq> 0
                    then v6\<lparr>vItems := vItems v6 @ [head], vTail := Suc (vTail v6)\<rparr>
                    else v6))
         else v2)"

definition vPopHead :: "nat \<Rightarrow> flView \<Rightarrow> u64 \<times> flView" where
  "vPopHead cap v =
     (case vPop cap v of
        (ptr, head, v1) \<Rightarrow> if head \<noteq> 0 then (ptr, vPush cap v1 head) else (ptr, v1))"

text \<open>A well-formed view (for a node capacity of at least two): the counters are in order,
  there is one node for every started block of \<open>cap\<close> positions, and the items and the
  nodes are pairwise different pages of the store, none with the identifier zero.\<close>

definition viewOk :: "nat \<Rightarrow> flView \<Rightarrow> bool" where
  "viewOk cap v \<longleftrightarrow>
     2 \<le> cap \<and> vHead v \<le> vMax v \<and> vMax v \<le> vTail v \<and>
     length (vItems v) = vTail v - vHead v \<and>
     length (vNodes v) = vTail v div cap - vHead v div cap + 1 \<and>
     distinct (vItems v) \<and> distinct (vNodes v) \<and> set (vItems v) \<inter> set (vNodes v) = {} \<and>
     0 \<notin> set (vItems v) \<and> 0 \<notin> set (vNodes v) \<and>
     (\<forall>x\<in>set (vItems v). unat x < vPages v) \<and>
     (\<forall>x\<in>set (vNodes v). unat x < vPages v) \<and> vPages v < 2 ^ 64"

text \<open>A page that is neither an item nor a node of the list.\<close>

definition vFree :: "flView \<Rightarrow> u64 \<Rightarrow> bool" where
  "vFree v p \<longleftrightarrow> p \<noteq> 0 \<and> unat p < vPages v \<and> p \<notin> set (vItems v) \<and> p \<notin> set (vNodes v)"

text \<open>The items below the watermark \<open>maxSeq\<close> and the items from the watermark on.\<close>

definition vEarly :: "flView \<Rightarrow> u64 list" where
  "vEarly v = take (vMax v - vHead v) (vItems v)"

definition vLate :: "flView \<Rightarrow> u64 list" where
  "vLate v = drop (vMax v - vHead v) (vItems v)"

text \<open>A list matches a view: the counters agree, every page of the store has \<open>psz\<close> bytes,
  the nodes are linked by their next pointers from \<open>headPage\<close> to \<open>tailPage\<close>, and the item at
  position \<open>s\<close> is in slot \<open>s mod cap\<close> of the node of its block.\<close>

definition flAbs :: "nat \<Rightarrow> FreeList \<Rightarrow> flView \<Rightarrow> bool" where
  "flAbs psz fl v \<longleftrightarrow>
     unat (headSeq fl) = vHead v \<and> unat (maxSeq fl) = vMax v \<and> unat (tailSeq fl) = vTail v \<and>
     length (pages fl) = vPages v \<and> (\<forall>pg\<in>set (pages fl). length pg = psz) \<and>
     vNodes v \<noteq> [] \<and> (\<forall>x\<in>set (vNodes v). unat x < vPages v) \<and>
     headPage fl = hd (vNodes v) \<and> tailPage fl = last (vNodes v) \<and>
     length (vItems v) = vTail v - vHead v \<and>
     (\<forall>i. Suc i < length (vNodes v) \<longrightarrow>
        nodeNext (pages fl ! unat (vNodes v ! i)) = vNodes v ! Suc i) \<and>
     (\<forall>s. vHead v \<le> s \<and> s < vTail v \<longrightarrow>
        s div FREE_LIST_CAP psz - vHead v div FREE_LIST_CAP psz < length (vNodes v) \<and>
        nodeSlot (pages fl ! unat (vNodes v ! (s div FREE_LIST_CAP psz - vHead v div FREE_LIST_CAP psz)))
          (s mod FREE_LIST_CAP psz) = vItems v ! (s - vHead v))"

text \<open>The view of \<^const>\<open>flFresh\<close>.\<close>

definition vFresh :: "nat \<Rightarrow> u64 \<Rightarrow> flView" where
  "vFresh n h = \<lparr>vHead = 0, vMax = 0, vTail = 0, vPages = n, vNodes = [h], vItems = []\<rparr>"

text \<open>Sequences of operations on views, as \<^const>\<open>flRun\<close> on lists.\<close>

fun vStep :: "nat \<Rightarrow> flView \<Rightarrow> flOp \<Rightarrow> flView" where
  "vStep cap v (Push p) = vPush cap v p"
| "vStep cap v Pop = snd (vPopHead cap v)"
| "vStep cap v SetMax = v\<lparr>vMax := vTail v\<rparr>"

fun vRun :: "nat \<Rightarrow> flView \<Rightarrow> flOp list \<Rightarrow> flView \<times> u64 list" where
  "vRun cap v [] = (v, [])"
| "vRun cap v (Push p # ops) = vRun cap (vPush cap v p) ops"
| "vRun cap v (Pop # ops) =
     (fst (vRun cap (snd (vPopHead cap v)) ops),
      fst (vPopHead cap v) # snd (vRun cap (snd (vPopHead cap v)) ops))"
| "vRun cap v (SetMax # ops) = vRun cap (v\<lparr>vMax := vTail v\<rparr>) ops"

text \<open>The identifiers a sequence of operations pushes, in call order.\<close>

fun pushed :: "flOp list \<Rightarrow> u64 list" where
  "pushed [] = []"
| "pushed (Push p # ops) = p # pushed ops"
| "pushed (Pop # ops) = pushed ops"
| "pushed (SetMax # ops) = pushed ops"

text \<open>What a caller owes the list on a store that had \<open>n\<close> pages when the list was set
  up on its node \<open>h\<close>: the identifiers it pushes are pairwise different pages of these \<open>n\<close>,
  none of them zero or \<open>h\<close>. Such a page is never a node of the list, whose nodes are \<open>h\<close>,
  pages appended later and pages taken from the list itself.\<close>

definition flClientOk :: "nat \<Rightarrow> u64 \<Rightarrow> flOp list \<Rightarrow> bool" where
  "flClientOk n h ops \<longleftrightarrow>
     distinct (pushed ops) \<and> (\<forall>p\<in>set (pushed ops). p \<noteq> 0 \<and> p \<noteq> h \<and> unat p < n)"

text \<open>The same during a run, on a view: the pages still to be pushed are free.\<close>

definition runOk :: "nat \<Rightarrow> nat \<Rightarrow> flView \<Rightarrow> flOp list \<Rightarrow> bool" where
  "runOk cap n v ops \<longleftrightarrow>
     viewOk cap v \<and> n \<le> vPages v \<and> distinct (pushed ops) \<and>
     (\<forall>q\<in>set (pushed ops). vFree v q \<and> unat q < n) \<and>
     vTail v + 2 * length ops < 2 ^ 64 \<and> vPages v + length ops < 2 ^ 64"

text \<open>
  For \<open>M\<close> items pushed into a new list and then popped: no exhausted head node comes
  back into the list at a rollover of the tail while items are left. The \<open>r\<close>-th head node
  is exhausted by pop number \<open>r * cap\<close> and goes to position \<open>M + r - 1\<close>, so the tail rolls
  over when \<open>cap\<close> divides \<open>M + r\<close>; \<^const>\<open>PushTail\<close> then takes the next item of the list
  as its new tail node.
\<close>

definition noSteal :: "nat \<Rightarrow> nat \<Rightarrow> bool" where
  "noSteal cap M \<longleftrightarrow> (\<forall>r\<in>{1..M}. r * cap < M \<longrightarrow> (M + r) mod cap \<noteq> 0)"

section \<open>Verification of the codec\<close>

lemma Uint64_byte_at:
  "k + 8 \<le> 64 \<Longrightarrow>
     bit (push_bit k (ucast (ucast (drop_bit k v) :: u8)) :: u64) n \<longleftrightarrow> k \<le> n \<and> n < k + 8 \<and> bit v n"
  for v :: u64
  by (auto simp add: bit_simps)

lemma Uint64_PutUint64: "Uint64 (PutUint64 v) = v"
  unfolding Uint64_def PutUint64_def
  apply (rule bit_word_eqI)
  using Uint64_byte_at[of 0 v] Uint64_byte_at[of 8 v] Uint64_byte_at[of 16 v]
    Uint64_byte_at[of 24 v] Uint64_byte_at[of 32 v] Uint64_byte_at[of 40 v]
    Uint64_byte_at[of 48 v] Uint64_byte_at[of 56 v]
  apply (simp add: bit_or_iff)
  apply arith
  done

lemma length_PutUint64: "length (PutUint64 v) = 8"
  by (simp add: PutUint64_def)

lemma le_one_cases: "ch \<le> 1 \<longleftrightarrow> ch = 0 \<or> ch = 1" for ch :: u8
  by (auto simp: word_le_nat_alt word_unat_eq_iff)

lemma unescapeLoop_escapeLoop: "unescapeLoop (escapeLoop s) = Inr s"
  by (induction s) (auto simp: le_one_cases)

lemma unescapeLoop_no_one: "count_list s 1 = 0 \<Longrightarrow> unescapeLoop s = Inr s"
  by (induction s) (auto split: if_splits)

lemma unescapeString_eq_loop: "unescapeString s = unescapeLoop s"
  by (simp add: unescapeString_def unescapeLoop_no_one)

lemma escapeLoop_no_escape: "count_list s 0 + count_list s 1 = 0 \<Longrightarrow> escapeLoop s = s"
  by (induction s) (auto simp: le_one_cases split: if_splits)

lemma escapeString_eq_loop: "escapeString s = escapeLoop s"
  by (simp add: escapeString_def Let_def escapeLoop_no_escape del: add_is_0)

lemma unescapeString_escapeString: "unescapeString (escapeString s) = Inr s"
  by (simp add: unescapeString_eq_loop escapeString_eq_loop unescapeLoop_escapeLoop)

lemma zero_notin_escapeLoop: "0 \<notin> set (escapeLoop s)"
  by (induction s) (auto simp: le_one_cases)

lemma IndexByte_append: "c \<notin> set xs \<Longrightarrow> IndexByte (xs @ c # ys) c = Some (length xs)"
  by (induction xs) auto

lemma IndexByte_escapeString:
  "IndexByte (escapeString s @ 0 # rest) 0 = Some (length (escapeString s))"
  by (simp add: IndexByte_append escapeString_eq_loop zero_notin_escapeLoop)

lemma lex_step:
  fixes x y m :: nat
  assumes "0 < m" and "x mod (m * 256) < y mod (m * 256)"
  shows "(x div m) mod 256 < (y div m) mod 256 \<or>
         ((x div m) mod 256 = (y div m) mod 256 \<and> x mod m < y mod m)"
proof (rule ccontr)
  assume neg: "\<not> ?thesis"
  have ex: "x mod (m * 256) = m * ((x div m) mod 256) + x mod m"
    by (rule mod_mult2_eq)
  have ey: "y mod (m * 256) = m * ((y div m) mod 256) + y mod m"
    by (rule mod_mult2_eq)
  have rx: "x mod m < m" and ry: "y mod m < m" using assms(1) by simp_all
  show False
  proof (cases "(x div m) mod 256 = (y div m) mod 256")
    case True
    with neg assms(2) ex ey show False by simp
  next
    case False
    with neg have "(y div m) mod 256 + 1 \<le> (x div m) mod 256" by simp
    then have "m * ((y div m) mod 256 + 1) \<le> m * ((x div m) mod 256)"
      by (rule mult_le_mono2)
    with assms(2) ex ey ry show False by simp
  qed
qed

lemma beNat_less: "x mod 256 ^ n < y mod 256 ^ n \<Longrightarrow> beNat n x < beNat n y"
proof (induction n)
  case 0
  then show ?case by simp
next
  case (Suc n)
  have "x mod (256 ^ n * 256) < y mod (256 ^ n * 256)"
    using Suc.prems by (simp add: mult.commute)
  from lex_step [OF _ this] Suc.IH show ?case by auto
qed

lemma unat_byte: "unat (ucast (drop_bit k u) :: u8) = (unat u div 2 ^ k) mod 256" for u :: u64
  by (simp only: unsigned_ucast_eq unat_drop_bit_eq) (simp add: drop_bit_eq_div take_bit_eq_mod)

lemma map_unat_PutUint64: "map unat (PutUint64 u) = beNat 8 (unat u)"
proof -
  have "(8::nat) = Suc (Suc (Suc (Suc (Suc (Suc (Suc (Suc 0)))))))"
    by simp
  then have "beNat 8 (unat u) = beNat (Suc (Suc (Suc (Suc (Suc (Suc (Suc (Suc 0)))))))) (unat u)"
    by (rule arg_cong)
  also have "\<dots> = map unat (PutUint64 u)"
    using unat_byte [of 0 u] by (simp add: PutUint64_def unat_byte)
  finally show ?thesis by simp
qed

lemma map_unat_less: "map unat xs < map unat ys \<Longrightarrow> xs < ys" for xs ys :: "u8 list"
proof (induction xs arbitrary: ys)
  case Nil
  then show ?case by (cases ys) simp_all
next
  case (Cons x xs)
  then show ?case
    by (cases ys) (auto simp: word_less_nat_alt word_unat_eq_iff)
qed

lemma PutUint64_less: "u < v \<Longrightarrow> PutUint64 u < PutUint64 v"
proof -
  assume "u < v"
  then have "unat u < unat v" by (simp add: word_less_nat_alt)
  moreover have "unat u < 2 ^ 64" "unat v < 2 ^ 64"
    using unsigned_less [of u] unsigned_less [of v] by simp_all
  ultimately have "unat u mod 256 ^ 8 < unat v mod 256 ^ 8" by simp
  then have "beNat 8 (unat u) < beNat 8 (unat v)" by (rule beNat_less)
  then show ?thesis
    by (intro map_unat_less) (simp only: map_unat_PutUint64)
qed

lemma uint_flip: "uint (a + push_bit 63 1 :: u64) = sint a + 2 ^ 63"
  by (simp add: sint_uint signed_take_bit_eq_take_bit_shift uint_word_arith_bintrs)

lemma flip_less: "sint a < sint b \<Longrightarrow> a + push_bit 63 1 < (b + push_bit 63 1 :: u64)"
  using uint_flip [of a] uint_flip [of b] by (simp add: word_less_def)

lemma escapeLoop_less: "s < t \<Longrightarrow> escapeLoop s @ [0] < escapeLoop t @ [0]"
proof (induction s arbitrary: t)
  case Nil
  then show ?case by (cases t) (auto simp: word_le_nat_alt word_less_nat_alt word_unat_eq_iff)
next
  case (Cons a s)
  then obtain b t' where t: "t = b # t'" by (cases t) auto
  with Cons.prems have "a < b \<or> (a = b \<and> s < t')" by simp
  then show ?case
  proof
    assume ab: "a < b"
    consider (both) "a = 0" "b = 1" | (left) "a \<le> 1" "\<not> b \<le> 1" | (none) "\<not> a \<le> 1" "\<not> b \<le> 1"
      using ab by (cases "a \<le> 1"; cases "b \<le> 1") (auto simp: le_one_cases word_less_1)
    then show ?thesis
    proof cases
      case both
      then show ?thesis unfolding t by simp
    next
      case left
      moreover from left have "1 < b" by simp
      ultimately show ?thesis unfolding t by simp
    next
      case none
      with ab show ?thesis unfolding t by simp
    qed
  next
    assume "a = b \<and> s < t'"
    with Cons.IH [of t'] show ?thesis unfolding t by auto
  qed
qed

lemma TYPE_distinct [simp]: "TYPE_INT64 \<noteq> TYPE_BYTES" "TYPE_BYTES \<noteq> TYPE_INT64"
  by (simp_all add: TYPE_INT64_def TYPE_BYTES_def)

lemma encodeValues_concat:
  "\<forall>v\<in>set vals. Type v = TYPE_BYTES \<or> Type v = TYPE_INT64 \<Longrightarrow>
     encodeValues acc vals = Inr (acc @ concat (map encodeValue vals))"
  by (induction vals arbitrary: acc) (auto simp: encodeValue_def)

lemma decodeValues_int64:
  "decodeValues (PutUint64 (i + push_bit 63 1) @ rest) (typedValue TYPE_INT64 # out) =
     (case decodeValues rest out of Inl e \<Rightarrow> Inl e | Inr out' \<Rightarrow> Inr (int64Value i # out'))"
  by (simp add: length_PutUint64 Uint64_PutUint64 typedValue_def int64Value_def split: sum.split)

lemma decodeValues_bytes:
  "decodeValues ((escapeString s @ [0]) @ rest) (typedValue TYPE_BYTES # out) =
     (case decodeValues rest out of Inl e \<Rightarrow> Inl e | Inr out' \<Rightarrow> Inr (bytesValue s # out'))"
  by (simp add: IndexByte_escapeString unescapeString_escapeString typedValue_def bytesValue_def
      split: sum.split)

lemma decodeValues_concat:
  "\<forall>v\<in>set vals. (\<exists>s. v = bytesValue s) \<or> (\<exists>i. v = int64Value i) \<Longrightarrow>
     decodeValues (concat (map encodeValue vals)) (map (\<lambda>v. typedValue (Type v)) vals) = Inr vals"
proof (induction vals)
  case Nil
  then show ?case by simp
next
  case (Cons v vals)
  then have IH: "decodeValues (concat (map encodeValue vals)) (map (\<lambda>v. typedValue (Type v)) vals) = Inr vals"
    by simp
  from Cons.prems consider s where "v = bytesValue s" | i where "v = int64Value i"
    by auto
  then show ?case
  proof cases
    case 1
    then have "encodeValue v = escapeString s @ [0]" "Type v = TYPE_BYTES"
      by (simp_all add: encodeValue_def bytesValue_def)
    then show ?thesis
      using decodeValues_bytes [of s "concat (map encodeValue vals)" "map (\<lambda>v. typedValue (Type v)) vals"] IH 1
      by simp
  next
    case 2
    then have "encodeValue v = PutUint64 (i + push_bit 63 1)" "Type v = TYPE_INT64"
      by (simp_all add: encodeValue_def int64Value_def)
    then show ?thesis
      using decodeValues_int64 [of i "concat (map encodeValue vals)" "map (\<lambda>v. typedValue (Type v)) vals"] IH 2
      by simp
  qed
qed

text \<open>
  Claim C1 (round trip). For every sequence of typed values, each a BYTES value
  \<^term>\<open>bytesValue s\<close> or an INT64 value \<^term>\<open>int64Value i\<close>, \<^verbatim>\<open>encodeValues\<close> returns an
  encoding, and \<^verbatim>\<open>decodeValues\<close> applied to it and to blank cells of the same types
  returns exactly the input values. The byte strings are arbitrary: 0x00 and 0x01 may
  stand anywhere in them.
\<close>

theorem decodeValues_encodeValues:
  assumes "\<forall>v\<in>set vals. (\<exists>s. v = bytesValue s) \<or> (\<exists>i. v = int64Value i)"
  shows "\<exists>enc. encodeValues [] vals = Inr enc \<and>
           decodeValues enc (map (\<lambda>v. typedValue (Type v)) vals) = Inr vals"
proof -
  from assms have "\<forall>v\<in>set vals. Type v = TYPE_BYTES \<or> Type v = TYPE_INT64"
    by (auto simp: bytesValue_def int64Value_def)
  then have "encodeValues [] vals = Inr (concat (map encodeValue vals))"
    by (simp add: encodeValues_concat)
  with decodeValues_concat [OF assms] show ?thesis by simp
qed

theorem decodeValues_encodeValues_witness:
  "encodeValues [] [bytesValue [0, 1, 0x41, 0, 1], int64Value (- 5), bytesValue []]
     = Inr [1, 1, 1, 2, 0x41, 1, 1, 1, 2, 0, 0x7F, 0xFF, 0xFF, 0xFF, 0xFF, 0xFF, 0xFF, 0xFB, 0] \<and>
   decodeValues [1, 1, 1, 2, 0x41, 1, 1, 1, 2, 0, 0x7F, 0xFF, 0xFF, 0xFF, 0xFF, 0xFF, 0xFF, 0xFB, 0]
     [typedValue TYPE_BYTES, typedValue TYPE_INT64, typedValue TYPE_BYTES]
     = Inr [bytesValue [0, 1, 0x41, 0, 1], int64Value (- 5), bytesValue []]"
proof -
  have e: "encodeValues [] [bytesValue [0, 1, 0x41, 0, 1], int64Value (- 5), bytesValue []]
     = Inr [1, 1, 1, 2, 0x41, 1, 1, 1, 2, 0, 0x7F, 0xFF, 0xFF, 0xFF, 0xFF, 0xFF, 0xFF, 0xFB, 0]"
    by (simp add: bytesValue_def int64Value_def TYPE_BYTES_def TYPE_INT64_def escapeString_def
        PutUint64_def le_one_cases)
  have t: "map (\<lambda>v. typedValue (Type v)) [bytesValue [0, 1, 0x41, 0, 1], int64Value (- 5), bytesValue []]
     = [typedValue TYPE_BYTES, typedValue TYPE_INT64, typedValue TYPE_BYTES]"
    by (simp add: bytesValue_def int64Value_def)
  have h: "\<forall>v\<in>set [bytesValue [0, 1, 0x41, 0, 1], int64Value (- 5), bytesValue []].
             (\<exists>s. v = bytesValue s) \<or> (\<exists>i. v = int64Value i)"
    by auto
  from decodeValues_encodeValues [OF h] obtain enc where
    1: "encodeValues [] [bytesValue [0, 1, 0x41, 0, 1], int64Value (- 5), bytesValue []] = Inr enc" and
    2: "decodeValues enc
          (map (\<lambda>v. typedValue (Type v)) [bytesValue [0, 1, 0x41, 0, 1], int64Value (- 5), bytesValue []])
        = Inr [bytesValue [0, 1, 0x41, 0, 1], int64Value (- 5), bytesValue []]"
    by blast
  from 1 have enc: "enc = [1, 1, 1, 2, 0x41, 1, 1, 1, 2, 0, 0x7F, 0xFF, 0xFF, 0xFF, 0xFF, 0xFF, 0xFF, 0xFB, 0]"
    unfolding e by simp
  from e 2 [unfolded enc t] show ?thesis
    by (rule conjI)
qed

text \<open>
  Claim C2 (order preservation). If \<open>a < b\<close> as signed 64-bit integers, the encoding
  of \<open>[a]\<close> is strictly below the encoding of \<open>[b]\<close> in the lexicographic order of
  unsigned bytes (the order of \<^verbatim>\<open>bytes.Compare\<close>); and if \<open>x < y\<close> as byte strings in
  that order, the encoding of \<open>[x]\<close> is strictly below the encoding of \<open>[y]\<close>.
\<close>

theorem encodeValues_order_preserving:
  fixes a b :: i64 and x y :: "u8 list"
  shows "(sint a < sint b \<longrightarrow>
           (\<exists>ea eb. encodeValues [] [int64Value a] = Inr ea \<and>
                    encodeValues [] [int64Value b] = Inr eb \<and> ea < eb)) \<and>
         (x < y \<longrightarrow>
           (\<exists>ex ey. encodeValues [] [bytesValue x] = Inr ex \<and>
                    encodeValues [] [bytesValue y] = Inr ey \<and> ex < ey))"
proof (intro conjI impI)
  assume "sint a < sint b"
  then have "PutUint64 (a + push_bit 63 1) < PutUint64 (b + push_bit 63 1)"
    by (intro PutUint64_less flip_less)
  then show "\<exists>ea eb. encodeValues [] [int64Value a] = Inr ea \<and>
                    encodeValues [] [int64Value b] = Inr eb \<and> ea < eb"
    by (simp add: int64Value_def)
next
  assume "x < y"
  then have "escapeString x @ [0] < escapeString y @ [0]"
    by (simp only: escapeString_eq_loop escapeLoop_less)
  then show "\<exists>ex ey. encodeValues [] [bytesValue x] = Inr ex \<and>
                    encodeValues [] [bytesValue y] = Inr ey \<and> ex < ey"
    by (simp add: bytesValue_def)
qed

theorem encodeValues_order_preserving_witness:
  "sint (- 1 :: i64) < sint (0 :: i64) \<and>
   encodeValues [] [int64Value (- 1)] = Inr [0x7F, 0xFF, 0xFF, 0xFF, 0xFF, 0xFF, 0xFF, 0xFF] \<and>
   encodeValues [] [int64Value 0] = Inr [0x80, 0, 0, 0, 0, 0, 0, 0] \<and>
   [0x7F, 0xFF, 0xFF, 0xFF, 0xFF, 0xFF, 0xFF, 0xFF] < [0x80, 0, 0, 0, 0, 0, 0, 0 :: u8] \<and>
   [0 :: u8] < [0, 1] \<and>
   encodeValues [] [bytesValue [0]] = Inr [1, 1, 0] \<and>
   encodeValues [] [bytesValue [0, 1]] = Inr [1, 1, 1, 2, 0] \<and>
   [1, 1, 0] < [1, 1, 1, 2, 0 :: u8]"
  using encodeValues_order_preserving [of "- 1" 0 "[0]" "[0, 1]"]
  by (simp add: bytesValue_def int64Value_def TYPE_BYTES_def TYPE_INT64_def escapeString_def
        PutUint64_def)

section \<open>Verification of the record checks and of the scan validation\<close>

lemma GetIndex_insert:
  "key \<noteq> c \<Longrightarrow>
     GetIndex (cs1 @ c # cs2) key =
       (case GetIndex (cs1 @ cs2) key of
          None \<Rightarrow> None
        | Some i \<Rightarrow> Some (if i < length cs1 then i else Suc i))"
  by (induction cs1) (auto split: option.splits)

lemma Get_insert:
  assumes "key \<noteq> c" and "length cs1 = length vs1"
  shows "Get \<lparr>Record.Cols = cs1 @ c # cs2, Vals = vs1 @ v # vs2\<rparr> key =
         Get \<lparr>Record.Cols = cs1 @ cs2, Vals = vs1 @ vs2\<rparr> key"
  using assms
  by (auto simp: Get_def GetIndex_insert nth_append split: option.splits)

lemma reorderLoop_insert:
  assumes "c \<notin> set cols" and "length cs1 = length vs1"
  shows "reorderLoop td \<lparr>Record.Cols = cs1 @ c # cs2, Vals = vs1 @ v # vs2\<rparr> i cols =
         reorderLoop td \<lparr>Record.Cols = cs1 @ cs2, Vals = vs1 @ vs2\<rparr> i cols"
  using assms
proof (induction cols arbitrary: i)
  case Nil
  then show ?case by simp
next
  case (Cons a cols)
  then have "a \<noteq> c" and "c \<notin> set cols" by auto
  with Cons show ?case
    by (simp add: Get_insert [of a c cs1 vs1 cs2 v vs2] cong: sum.case_cong option.case_cong if_cong)
qed

lemma reorderRecord_insert:
  assumes "c \<notin> set (Cols td)" and "length cs1 = length vs1"
  shows "reorderRecord td \<lparr>Record.Cols = cs1 @ c # cs2, Vals = vs1 @ v # vs2\<rparr> =
         reorderRecord td \<lparr>Record.Cols = cs1 @ cs2, Vals = vs1 @ vs2\<rparr>"
  using assms by (simp add: reorderRecord_def reorderLoop_insert)

lemma checkRecord_insert:
  assumes "c \<notin> set (Cols td)" and "length cs1 = length vs1"
  shows "checkRecord td \<lparr>Record.Cols = cs1 @ c # cs2, Vals = vs1 @ v # vs2\<rparr> n =
         checkRecord td \<lparr>Record.Cols = cs1 @ cs2, Vals = vs1 @ vs2\<rparr> n"
  using assms by (simp add: checkRecord_def reorderRecord_insert)

text \<open>
  Claim C10 (unknown columns are ignored). Take a record and put into it, at any
  position, an entry whose column name does not occur among the columns of the table
  definition. \<^verbatim>\<open>reorderRecord\<close> and \<^verbatim>\<open>checkRecord\<close> return for the longer record
  exactly what they return for the shorter one: the same values, the same error (never
  an "extra column" error for the new entry), the same panic. \<^verbatim>\<open>dbUpdate\<close>, which
  every insert goes through, gives the same results and leaves the same store; the two
  requests differ only in the record they carry.
\<close>

theorem unknown_column_ignored:
  assumes "c \<notin> set (Cols td)" and "length cs1 = length vs1"
  shows "reorderRecord td \<lparr>Record.Cols = cs1 @ c # cs2, Vals = vs1 @ v # vs2\<rparr> =
           reorderRecord td \<lparr>Record.Cols = cs1 @ cs2, Vals = vs1 @ vs2\<rparr> \<and>
         checkRecord td \<lparr>Record.Cols = cs1 @ c # cs2, Vals = vs1 @ v # vs2\<rparr> n =
           checkRecord td \<lparr>Record.Cols = cs1 @ cs2, Vals = vs1 @ vs2\<rparr> n \<and>
         dbUpdate db td \<lparr>Record = \<lparr>Record.Cols = cs1 @ c # cs2, Vals = vs1 @ v # vs2\<rparr>,
                          Mode = m, Updated = u, Added = a\<rparr> =
           map_sum id (\<lambda>(res, db', req). (res, db', req\<lparr>Record := \<lparr>Record.Cols = cs1 @ c # cs2, Vals = vs1 @ v # vs2\<rparr>\<rparr>))
             (dbUpdate db td \<lparr>Record = \<lparr>Record.Cols = cs1 @ cs2, Vals = vs1 @ vs2\<rparr>,
                               Mode = m, Updated = u, Added = a\<rparr>)"
  using assms
  by (auto simp: reorderRecord_insert checkRecord_insert dbUpdate_def
      split: sum.splits fault.splits prod.splits)

theorem unknown_column_ignored_witness:
  "''zzz'' \<notin> set (Cols TDEF_META) \<and>
   checkRecord TDEF_META
     \<lparr>Record.Cols = [''key'', ''zzz'', ''val''],
      Vals = [bytesValue [1], int64Value 7, bytesValue [2]]\<rparr> 2
     = Inr [bytesValue [1], bytesValue [2]] \<and>
   dbUpdate \<lparr>kv = []\<rparr> TDEF_META
     \<lparr>Record = \<lparr>Record.Cols = [''key'', ''zzz'', ''val''],
                 Vals = [bytesValue [1], int64Value 7, bytesValue [2]]\<rparr>,
      Mode = MODE_INSERT_ONLY, Updated = False, Added = False\<rparr>
     = Inr ((True, None), \<lparr>kv = [([0, 0, 0, 1, 1, 2, 0], [2, 0])]\<rparr>,
            \<lparr>Record = \<lparr>Record.Cols = [''key'', ''zzz'', ''val''],
                        Vals = [bytesValue [1], int64Value 7, bytesValue [2]]\<rparr>,
             Mode = MODE_INSERT_ONLY, Updated = True, Added = True\<rparr>)"
proof -
  have h1: "''zzz'' \<notin> set (Cols TDEF_META)"
    by (simp add: TDEF_META_def)
  have h2: "length [''key''] = length [bytesValue [1]]"
    by simp
  have e1: "checkRecord TDEF_META
      \<lparr>Record.Cols = [''key''] @ [''val''], Vals = [bytesValue [1]] @ [bytesValue [2]]\<rparr> 2
      = Inr [bytesValue [1], bytesValue [2]]"
    by (simp add: checkRecord_def reorderRecord_def valuesComplete_def Get_def TDEF_META_def
        bytesValue_def TYPE_BYTES_def)
  have e2: "dbUpdate \<lparr>kv = []\<rparr> TDEF_META
      \<lparr>Record = \<lparr>Record.Cols = [''key''] @ [''val''], Vals = [bytesValue [1]] @ [bytesValue [2]]\<rparr>,
       Mode = MODE_INSERT_ONLY, Updated = False, Added = False\<rparr>
      = Inr ((True, None), \<lparr>kv = [([0, 0, 0, 1, 1, 2, 0], [2, 0])]\<rparr>,
             \<lparr>Record = \<lparr>Record.Cols = [''key''] @ [''val''], Vals = [bytesValue [1]] @ [bytesValue [2]]\<rparr>,
              Mode = MODE_INSERT_ONLY, Updated = True, Added = True\<rparr>)"
    by (simp add: dbUpdate_def checkRecord_def reorderRecord_def valuesComplete_def Get_def
        TDEF_META_def bytesValue_def TYPE_BYTES_def TYPE_INT64_def sliceOk_def encodeKey_def
        PutUint32_def escapeString_def le_one_cases kvUpdate_def MODE_INSERT_ONLY_def
        MODE_UPSERT_def MODE_UPDATE_ONLY_def)
  note t = unknown_column_ignored [OF h1 h2, of "[''val'']" "int64Value 7" "[bytesValue [2]]" 2
      "\<lparr>kv = []\<rparr>" MODE_INSERT_ONLY False False]
  from h1 t show ?thesis
    unfolding e1 e2 by simp
qed

lemma unescapeLoop_no_Error_aux:
  "unescapeLoop s \<noteq> Inl (Error m) \<and> (\<forall>x. unescapeLoop (x # s) \<noteq> Inl (Error m))"
proof (induction s)
  case Nil
  show ?case by simp
next
  case (Cons a s)
  have 1: "unescapeLoop (a # s) \<noteq> Inl (Error m)"
    using Cons.IH by blast
  have 2: "unescapeLoop (x # a # s) \<noteq> Inl (Error m)" for x
  proof (cases "x = 1")
    case True
    have "unescapeLoop s \<noteq> Inl (Error m)" using Cons.IH by blast
    then show ?thesis
      unfolding True
      by (cases "unescapeLoop s") (simp_all add: unescapeLoop.simps(2) [of 1 "a # s"] del: unescapeLoop.simps)
  next
    case False
    with 1 show ?thesis
      by (cases "unescapeLoop (a # s)") (simp_all add: unescapeLoop.simps(2) [of x "a # s"] del: unescapeLoop.simps)
  qed
  from 1 2 show ?case by blast
qed

lemma unescapeLoop_no_Error: "unescapeLoop s \<noteq> Inl (Error m)"
  using unescapeLoop_no_Error_aux by blast

lemma unescapeString_no_Error: "unescapeString s \<noteq> Inl (Error m)"
  by (simp add: unescapeString_def unescapeLoop_no_Error)

lemma decodeValues_no_Error: "decodeValues inp out \<noteq> Inl (Error m)"
proof (induction out arbitrary: inp)
  case Nil
  then show ?case by simp
next
  case (Cons cell out)
  then show ?case
    using unescapeString_no_Error
    by (auto simp: Let_def split: sum.splits option.splits)
qed

lemma decodeKey_no_Error: "decodeKey inp out \<noteq> Inl (Error m)"
  by (simp add: decodeKey_def decodeValues_no_Error)

lemma cmpOk_no_Error: "cmpOk key cmp ref \<noteq> Inl (Error m)"
  by (simp add: cmpOk_def)

lemma Valid_no_Error: "Valid sc \<noteq> Inl (Error m)"
  by (auto simp: Valid_def iterDeref_def cmpOk_no_Error split: option.splits sum.splits prod.splits)

lemma Next_no_Error: "Next sc \<noteq> Inl (Error m)"
  using Valid_no_Error [of sc]
  by (auto simp: Next_def split: option.splits sum.splits)

lemma Deref_no_Error: "Deref sc rec \<noteq> Inl (Error m)"
  using Valid_no_Error [of sc] decodeKey_no_Error decodeValues_no_Error
  by (auto simp: Deref_def iterDeref_def Let_def split: option.splits sum.splits prod.splits)

lemma reorderLoop_Error:
  "reorderLoop td rec i cols = Inl (Error m) \<Longrightarrow> \<exists>c. m = ''bad column type: '' @ c"
  by (induction cols arbitrary: i) (auto simp: Get_def split: sum.splits option.splits if_splits)

lemma valuesCompleteLoop_Error:
  "valuesCompleteLoop td i vals n = Inl (Error m) \<Longrightarrow>
     \<exists>c. m = ''missing column: '' @ c \<or> m = ''extra column: '' @ c"
  by (induction vals arbitrary: i) (auto split: if_splits)

lemma reorderRecord_Error:
  "reorderRecord td rec = Inl (Error m) \<Longrightarrow> \<exists>c. m = ''bad column type: '' @ c"
  using reorderLoop_Error [of td rec 0 "Cols td" m]
  by (cases "length (Record.Cols rec) = length (Vals rec)") (simp_all add: reorderRecord_def)

lemma checkRecord_Error:
  assumes "checkRecord td rec n = Inl (Error m)"
  shows "\<exists>c. m = ''bad column type: '' @ c \<or> m = ''missing column: '' @ c \<or> m = ''extra column: '' @ c"
proof (cases "reorderRecord td rec")
  case (Inl e)
  with assms have "reorderRecord td rec = Inl (Error m)"
    by (simp add: checkRecord_def)
  from reorderRecord_Error [OF this] show ?thesis by blast
next
  case (Inr vals)
  with assms have "valuesCompleteLoop td 0 vals n = Inl (Error m)"
    by (simp add: checkRecord_def valuesComplete_def split: sum.splits)
  from valuesCompleteLoop_Error [OF this] show ?thesis by blast
qed

lemma checkRecord_not_bad_range: "checkRecord td rec n \<noteq> Inl (Error ''bad range'')"
  using checkRecord_Error [of td rec n "''bad range''"] by auto

text \<open>
  Claim C8 (scan validation is eager). For every pair of comparators, \<^verbatim>\<open>dbScan\<close>
  returns the error "bad range" if and only if the pair is neither (\<open>Cmp1\<close> ascending,
  \<open>Cmp2\<close> descending) nor (\<open>Cmp1\<close> descending, \<open>Cmp2\<close> ascending), a comparator being
  ascending when positive and descending when negative. When it rejects the pair it
  returns the scanner as it received it, for any store, table definition and boundary
  records: nothing was validated, encoded or sought. For a legal pair an error of
  \<^verbatim>\<open>checkRecord\<close> on a boundary record is the error \<^verbatim>\<open>dbScan\<close> returns, before any
  key is encoded. \<^verbatim>\<open>Valid\<close>, \<^verbatim>\<open>Next\<close> and \<^verbatim>\<open>Deref\<close> never end in a range or column
  error (they return no \<^verbatim>\<open>error\<close> at all; they can only panic).
\<close>

theorem dbScan_validation:
  "((\<exists>sc'. dbScan db td req = Inr (Some ''bad range'', sc')) \<longleftrightarrow>
      \<not> ((Cmp1 req > 0 \<and> Cmp2 req < 0) \<or> (Cmp1 req < 0 \<and> Cmp2 req > 0))) \<and>
   (\<not> ((Cmp1 req > 0 \<and> Cmp2 req < 0) \<or> (Cmp1 req < 0 \<and> Cmp2 req > 0)) \<longrightarrow>
      dbScan db td req = Inr (Some ''bad range'', req)) \<and>
   (((Cmp1 req > 0 \<and> Cmp2 req < 0) \<or> (Cmp1 req < 0 \<and> Cmp2 req > 0)) \<and>
      checkRecord td (Key1 req) (PKeys td) = Inl (Error m) \<longrightarrow>
      dbScan db td req = Inr (Some m, req\<lparr>tdef := Some td\<rparr>)) \<and>
   (((Cmp1 req > 0 \<and> Cmp2 req < 0) \<or> (Cmp1 req < 0 \<and> Cmp2 req > 0)) \<and>
      checkRecord td (Key1 req) (PKeys td) = Inr val1 \<and>
      checkRecord td (Key2 req) (PKeys td) = Inl (Error m) \<longrightarrow>
      dbScan db td req = Inr (Some m, req\<lparr>tdef := Some td\<rparr>)) \<and>
   Valid sc \<noteq> Inl (Error m') \<and> Next sc \<noteq> Inl (Error m') \<and> Deref sc rec \<noteq> Inl (Error m')"
proof -
  have a: "dbScan db td req = Inr (Some ''bad range'', req)"
    if "\<not> ((Cmp1 req > 0 \<and> Cmp2 req < 0) \<or> (Cmp1 req < 0 \<and> Cmp2 req > 0))"
    using that by (simp add: dbScan_def)
  have b: "\<not> (\<exists>sc'. dbScan db td req = Inr (Some ''bad range'', sc'))"
    if "(Cmp1 req > 0 \<and> Cmp2 req < 0) \<or> (Cmp1 req < 0 \<and> Cmp2 req > 0)"
    using that checkRecord_not_bad_range [of td "Key1 req" "PKeys td"]
      checkRecord_not_bad_range [of td "Key2 req" "PKeys td"]
    by (auto simp: dbScan_def Let_def split: sum.splits fault.splits)
  have c: "dbScan db td req = Inr (Some m, req\<lparr>tdef := Some td\<rparr>)"
    if "(Cmp1 req > 0 \<and> Cmp2 req < 0) \<or> (Cmp1 req < 0 \<and> Cmp2 req > 0)"
      and "checkRecord td (Key1 req) (PKeys td) = Inl (Error m)"
    using that by (auto simp: dbScan_def Let_def)
  have d: "dbScan db td req = Inr (Some m, req\<lparr>tdef := Some td\<rparr>)"
    if "(Cmp1 req > 0 \<and> Cmp2 req < 0) \<or> (Cmp1 req < 0 \<and> Cmp2 req > 0)"
      and "checkRecord td (Key1 req) (PKeys td) = Inr val1"
      and "checkRecord td (Key2 req) (PKeys td) = Inl (Error m)"
    using that by (auto simp: dbScan_def Let_def)
  show ?thesis
    using a b c d Valid_no_Error Next_no_Error Deref_no_Error by blast
qed

theorem dbScan_validation_witness:
  "\<not> ((CMP_GE > 0 \<and> CMP_GE < 0) \<or> (CMP_GE < 0 \<and> CMP_GE > 0)) \<and>
   dbScan \<lparr>kv = []\<rparr> TDEF_META
     \<lparr>Cmp1 = CMP_GE, Cmp2 = CMP_GE, Key1 = AddStr Record0 ''val'' [1],
      Key2 = AddStr Record0 ''key'' [1], tdef = None, iter = None, keyEnd = []\<rparr>
     = Inr (Some ''bad range'',
            \<lparr>Cmp1 = CMP_GE, Cmp2 = CMP_GE, Key1 = AddStr Record0 ''val'' [1],
             Key2 = AddStr Record0 ''key'' [1], tdef = None, iter = None, keyEnd = []\<rparr>) \<and>
   checkRecord TDEF_META (AddStr Record0 ''val'' [1]) (PKeys TDEF_META)
     = Inl (Error ''missing column: key'') \<and>
   dbScan \<lparr>kv = []\<rparr> TDEF_META
     \<lparr>Cmp1 = CMP_GE, Cmp2 = CMP_LE, Key1 = AddStr Record0 ''val'' [1],
      Key2 = AddStr Record0 ''key'' [1], tdef = None, iter = None, keyEnd = []\<rparr>
     = Inr (Some ''missing column: key'',
            \<lparr>Cmp1 = CMP_GE, Cmp2 = CMP_LE, Key1 = AddStr Record0 ''val'' [1],
             Key2 = AddStr Record0 ''key'' [1], tdef = Some TDEF_META, iter = None, keyEnd = []\<rparr>)"
proof -
  have c: "checkRecord TDEF_META (AddStr Record0 ''val'' [1]) (PKeys TDEF_META)
      = Inl (Error ''missing column: key'')"
    by (simp add: checkRecord_def reorderRecord_def valuesComplete_def Get_def TDEF_META_def
        AddStr_def Record0_def bytesValue_def TYPE_BYTES_def Value0_def)
  note t1 = dbScan_validation [of "\<lparr>kv = []\<rparr>" TDEF_META
      "\<lparr>Cmp1 = CMP_GE, Cmp2 = CMP_GE, Key1 = AddStr Record0 ''val'' [1],
        Key2 = AddStr Record0 ''key'' [1], tdef = None, iter = None, keyEnd = []\<rparr>"]
  note t2 = dbScan_validation [of "\<lparr>kv = []\<rparr>" TDEF_META
      "\<lparr>Cmp1 = CMP_GE, Cmp2 = CMP_LE, Key1 = AddStr Record0 ''val'' [1],
        Key2 = AddStr Record0 ''key'' [1], tdef = None, iter = None, keyEnd = []\<rparr>"
      "''missing column: key''"]
  from t1 t2 c show ?thesis
    by (simp add: CMP_GE_def CMP_LE_def)
qed

text \<open>
  Claim C9 (errors name the offending column). When \<^verbatim>\<open>getValues\<close> finds a requested
  column absent from the record, its message names \<^verbatim>\<open>tdef.Cols[i]\<close>, the table's
  \<open>i\<close>-th column, where \<open>i\<close> is the position in the requested list: for a table with
  the columns \<open>a\<close>, \<open>b\<close> and the request \<open>[b]\<close> on an empty record the message names
  \<open>a\<close>, not the absent column \<open>b\<close>.
\<close>

theorem getValues_missing_names_schema_column:
  "getValues \<lparr>Name = ''t'', Types = [TYPE_INT64, TYPE_BYTES], Cols = [''a'', ''b''],
               PKeys = 1, Prefix = 0, Indexes = [[''b'']]\<rparr> Record0 [''b'']
     = Inl (Error ''missing col.: a'')"
  by (simp add: getValues_def Get_def Record0_def)

section \<open>Verification of the table store\<close>

lemma kvLookup_kvPut: "kvLookup (kvPut es k v) k' = (if k' = k then Some v else kvLookup es k')"
  by (induction es) auto

lemma kvPut_keys: "\<forall>x\<in>set es. P (fst x) \<Longrightarrow> P k \<Longrightarrow> \<forall>x\<in>set (kvPut es k v). P (fst x)"
  by (induction es) (fastforce split: if_splits)+

lemma sorted_kvPut:
  "sorted_wrt (<) (map fst es) \<Longrightarrow> sorted_wrt (<) (map fst (kvPut es k v))"
proof (induction es)
  case Nil
  then show ?case by simp
next
  case (Cons e es)
  obtain k0 v0 where e: "e = (k0, v0)" by (cases e)
  from Cons.prems have tl: "sorted_wrt (<) (map fst es)" and hd: "\<forall>x\<in>set es. k0 < fst x"
    by (auto simp: e)
  show ?case
  proof (cases "k < k0")
    case True
    with Cons.prems show ?thesis by (auto simp: e)
  next
    case False
    show ?thesis
    proof (cases "k = k0")
      case True
      with Cons.prems show ?thesis by (auto simp: e)
    next
      case ne: False
      with False have "k0 < k" by simp
      with hd have "\<forall>x\<in>set (kvPut es k v). k0 < fst x"
        by (intro kvPut_keys)
      with Cons.IH [OF tl] False ne show ?thesis by (simp add: e)
    qed
  qed
qed

lemma cmpOk_GE [simp]: "cmpOk k CMP_GE key = Inr (key \<le> k)"
  by (simp add: cmpOk_def)

lemma cmpOk_LE [simp]: "cmpOk k CMP_LE key = Inr (k \<le> key)"
  by (simp add: cmpOk_def CMP_LE_def CMP_GE_def CMP_GT_def CMP_LT_def)

lemma seekFirst_GE:
  "sorted_wrt (<) (map fst es) \<Longrightarrow>
     \<exists>i. seekFirst es CMP_GE key = Inr i \<and>
       (case kvLookup es key of
          None \<Rightarrow> (i < length es \<longrightarrow> key < fst (es ! i))
        | Some v \<Rightarrow> i < length es \<and> es ! i = (key, v))"
proof (induction es)
  case Nil
  then show ?case by simp
next
  case (Cons e es)
  obtain k0 v0 where e: "e = (k0, v0)" by (cases e)
  from Cons.prems have tl: "sorted_wrt (<) (map fst es)" and hd: "\<forall>x\<in>set es. k0 < fst x"
    by (auto simp: e)
  show ?case
  proof (cases "key \<le> k0")
    case True
    show ?thesis
    proof (cases "k0 = key")
      case True
      then show ?thesis by (simp add: e)
    next
      case False
      with True have lt: "key < k0" by simp
      have "kvLookup es key = None"
      proof (rule ccontr)
        assume "kvLookup es key \<noteq> None"
        then have "key \<in> set (map fst es)"
          by (induction es) (auto split: if_splits)
        with hd lt show False by auto
      qed
      with True False lt show ?thesis by (simp add: e)
    qed
  next
    case False
    then have ne: "k0 \<noteq> key" by auto
    from Cons.IH [OF tl] obtain i where
      i: "seekFirst es CMP_GE key = Inr i" and
      c: "case kvLookup es key of None \<Rightarrow> (i < length es \<longrightarrow> key < fst (es ! i))
          | Some v \<Rightarrow> i < length es \<and> es ! i = (key, v)"
      by blast
    from False ne i c show ?thesis
      by (auto simp: e split: option.splits)
  qed
qed

lemma bytesValue_sel [simp]:
  "Type (bytesValue s) = TYPE_BYTES" "Str (bytesValue s) = s" "I64 (bytesValue s) = 0"
  by (simp_all add: bytesValue_def)

lemma TYPE_BYTES_nonzero [simp]: "TYPE_BYTES \<noteq> 0" "TYPE_INT64 \<noteq> 0"
  by (simp_all add: TYPE_BYTES_def TYPE_INT64_def)

lemma CMP_signs [simp]: "0 < CMP_GE" "CMP_LE < 0" "\<not> CMP_GE < 0" "\<not> 0 < CMP_LE"
  by (simp_all add: CMP_GE_def CMP_LE_def)

lemma length_PutUint32: "length (PutUint32 p) = 4"
  by (simp add: PutUint32_def)

lemma decodeValues_bytes_single:
  "decodeValues (escapeString s @ [0]) [typedValue TYPE_BYTES] = Inr [bytesValue s]"
  using decodeValues_bytes [of s "[]" "[]"] by simp

lemma dbGet_internal:
  assumes td: "Types td = [TYPE_BYTES, TYPE_BYTES]" "Cols td = [c0, c1]" "c0 \<noteq> c1"
      "PKeys td = 1" "Indexes td = [[c0]]"
    and sorted: "sorted_wrt (<) (map fst (kv db))"
  shows "dbGet db td (AddStr Record0 c0 k) =
     (case kvLookup (kv db) (PutUint32 (Prefix td) @ escapeString k @ [0]) of
        None \<Rightarrow> Inr ((False, None), AddStr Record0 c0 k)
      | Some v \<Rightarrow>
          (case decodeValues v [typedValue TYPE_BYTES] of
             Inl e \<Rightarrow> Inl Panic
           | Inr vs \<Rightarrow> Inr ((True, None), \<lparr>Record.Cols = [c0, c1], Vals = bytesValue k # vs\<rparr>)))"
proof -
  define key where "key = PutUint32 (Prefix td) @ escapeString k @ [0]"
  define sc where "sc = \<lparr>Cmp1 = CMP_GE, Cmp2 = CMP_LE,
      Key1 = \<lparr>Record.Cols = [c0], Vals = [bytesValue k]\<rparr>,
      Key2 = \<lparr>Record.Cols = [c0], Vals = [bytesValue k]\<rparr>,
      tdef = None, iter = None, keyEnd = []\<rparr>"
  have gv: "getValues td (AddStr Record0 c0 k) [c0] = Inr [bytesValue k]"
    by (simp add: getValues_def Get_def AddStr_def Record0_def td)
  have cr: "checkRecord td \<lparr>Record.Cols = [c0], Vals = [bytesValue k]\<rparr> 1 = Inr [bytesValue k, Value0]"
    using td(3)
    by (simp add: checkRecord_def reorderRecord_def valuesComplete_def Get_def td Value0_def)
  have ek: "encodeKey [] (Prefix td) [bytesValue k] = Inr key"
    by (simp add: encodeKey_def key_def)
  from seekFirst_GE [OF sorted, of key] obtain i where
    i: "seekFirst (kv db) CMP_GE key = Inr i" and
    c: "case kvLookup (kv db) key of None \<Rightarrow> (i < length (kv db) \<longrightarrow> key < fst (kv db ! i))
        | Some v \<Rightarrow> i < length (kv db) \<and> kv db ! i = (key, v)"
    by blast
  define sc' where "sc' = sc\<lparr>tdef := Some td, keyEnd := key, iter := Some \<lparr>entries = kv db, pos = int i\<rparr>\<rparr>"
  have ds: "dbScan db td sc = Inr (None, sc')"
    by (simp add: dbScan_def sc_def sc'_def cr td(4) sliceOk_def ek Seek_def i)
  have dg: "dbGet db td (AddStr Record0 c0 k) =
      (case Valid sc' of
         Inl e \<Rightarrow> Inl Panic
       | Inr ok \<Rightarrow>
           if \<not> ok then Inr ((False, None), AddStr Record0 c0 k)
           else (case Deref sc' (AddStr Record0 c0 k) of
                   Inl e \<Rightarrow> Inl Panic
                 | Inr rec' \<Rightarrow> Inr ((True, None), rec')))"
    using ds by (simp add: dbGet_def td(5) gv sc_def)
  show ?thesis
  proof (cases "kvLookup (kv db) key")
    case None
    with c have "Valid sc' = Inr False"
      by (auto simp: Valid_def sc'_def sc_def iterValid_def iterDeref_def split: prod.splits)
    with None show ?thesis
      unfolding dg by (simp add: key_def)
  next
    case (Some v)
    with c have iv: "i < length (kv db)" and e: "kv db ! i = (key, v)"
      by simp_all
    from iv e have va: "Valid sc' = Inr True"
      by (simp add: Valid_def sc'_def sc_def iterValid_def iterDeref_def)
    have dk: "decodeKey key [typedValue TYPE_BYTES] = Inr [bytesValue k]"
      by (simp add: decodeKey_def key_def length_PutUint32 decodeValues_bytes_single
          del: decodeValues.simps)
    from iv e va dk have "Deref sc' (AddStr Record0 c0 k) =
        (case decodeValues v [typedValue TYPE_BYTES] of
           Inl e \<Rightarrow> Inl e
         | Inr vs \<Rightarrow> Inr \<lparr>Record.Cols = [c0, c1], Vals = bytesValue k # vs\<rparr>)"
      by (simp add: Deref_def sc'_def sc_def iterValid_def iterDeref_def td sliceOk_def
          del: decodeValues.simps split: sum.splits)
    with Some va show ?thesis
      unfolding dg by (simp add: key_def split: sum.splits)
  qed
qed

lemma dbUpdate_internal:
  assumes td: "Types td = [TYPE_BYTES, TYPE_BYTES]" "Cols td = [c0, c1]" "c0 \<noteq> c1" "PKeys td = 1"
  shows "dbUpdate db td \<lparr>Record = \<lparr>Record.Cols = [c0, c1], Vals = [bytesValue k, bytesValue v]\<rparr>,
                          Mode = 0, Updated = False, Added = False\<rparr> =
     Inr ((True, None),
          db\<lparr>kv := kvPut (kv db) (PutUint32 (Prefix td) @ escapeString k @ [0]) (escapeString v @ [0])\<rparr>,
          \<lparr>Record = \<lparr>Record.Cols = [c0, c1], Vals = [bytesValue k, bytesValue v]\<rparr>,
           Mode = 0, Updated = True,
           Added = (kvLookup (kv db) (PutUint32 (Prefix td) @ escapeString k @ [0]) = None)\<rparr>)"
proof -
  have cr: "checkRecord td \<lparr>Record.Cols = [c0, c1], Vals = [bytesValue k, bytesValue v]\<rparr> 2
      = Inr [bytesValue k, bytesValue v]"
    using td(3)
    by (simp add: checkRecord_def reorderRecord_def valuesComplete_def Get_def td)
  show ?thesis
    by (simp add: dbUpdate_def td cr sliceOk_def encodeKey_def kvUpdate_def MODE_UPSERT_def Let_def)
qed

lemma LE32_byte_at:
  "k + 8 \<le> 32 \<Longrightarrow>
     bit (push_bit k (ucast (ucast (drop_bit k v) :: u8)) :: u32) n \<longleftrightarrow> k \<le> n \<and> n < k + 8 \<and> bit v n"
  for v :: u32
  by (auto simp add: bit_simps)

lemma LittleEndian_Uint32_PutUint32: "LittleEndian_Uint32 (LittleEndian_PutUint32 b v) = v"
  unfolding LittleEndian_Uint32_def LittleEndian_PutUint32_def
  apply (rule bit_word_eqI)
  using LE32_byte_at [of 0 v] LE32_byte_at [of 8 v] LE32_byte_at [of 16 v] LE32_byte_at [of 24 v]
  apply (simp add: bit_or_iff)
  apply arith
  done

lemma length_LE_PutUint32: "length (LittleEndian_PutUint32 b v) = 4 + (length b - 4)"
  by (simp add: LittleEndian_PutUint32_def)

lemma LE_PutUint32_twice:
  "LittleEndian_PutUint32 (LittleEndian_PutUint32 (replicate 4 0) c) v =
   LittleEndian_PutUint32 (replicate 4 0) v"
  by (simp add: LittleEndian_PutUint32_def)

lemma bytesValue_Str_update: "(bytesValue b)\<lparr>Str := s\<rparr> = bytesValue s"
  by (simp add: bytesValue_def)

lemma TDEF_META_fields:
  "Types TDEF_META = [TYPE_BYTES, TYPE_BYTES]" "Cols TDEF_META = [''key'', ''val'']"
  "PKeys TDEF_META = 1" "Indexes TDEF_META = [[''key'']]" "Prefix TDEF_META = 1"
  by (simp_all add: TDEF_META_def)

lemma TDEF_TABLE_fields:
  "Types TDEF_TABLE = [TYPE_BYTES, TYPE_BYTES]" "Cols TDEF_TABLE = [''name'', ''def'']"
  "PKeys TDEF_TABLE = 1" "Indexes TDEF_TABLE = [[''name'']]" "Prefix TDEF_TABLE = 2"
  by (simp_all add: TDEF_TABLE_def)

lemma tableKey_neq_metaKey:
  "PutUint32 (Prefix TDEF_TABLE) @ escapeString n @ [0] \<noteq> metaKey"
  by (simp add: metaKey_def TDEF_META_fields TDEF_TABLE_fields PutUint32_def)

lemma TableNew_step:
  assumes inv: "metaInv db c"
    and ok: "TableNew marshal db td = Inr (None, db', td')"
  shows "td' = td\<lparr>Prefix := c\<rparr> \<and> TABLE_PREFIX_MIN \<le> c \<and> metaInv db' (c + 1) \<and>
         kvLookup (kv db') metaKey =
           Some (escapeString (LittleEndian_PutUint32 (replicate 4 0) (c + 1)) @ [0])"
proof -
  let ?table = "AddStr Record0 ''name'' (bytes (Name td))"
  let ?meta = "AddStr Record0 ''key'' (bytes ''next_prefix'')"
  let ?tkey = "PutUint32 (Prefix TDEF_TABLE) @ escapeString (bytes (Name td)) @ [0]"
  let ?enc = "\<lambda>x. escapeString (LittleEndian_PutUint32 (replicate 4 0) x) @ [0]"
  from inv have sorted: "sorted_wrt (<) (map fst (kv db))"
    by (simp add: metaInv_def)
  have g1: "dbGet db TDEF_TABLE ?table =
     (case kvLookup (kv db) ?tkey of
        None \<Rightarrow> Inr ((False, None), ?table)
      | Some v \<Rightarrow>
          (case decodeValues v [typedValue TYPE_BYTES] of
             Inl e \<Rightarrow> Inl Panic
           | Inr vs \<Rightarrow> Inr ((True, None), \<lparr>Record.Cols = [''name'', ''def''], Vals = bytesValue (bytes (Name td)) # vs\<rparr>)))"
    by (rule dbGet_internal [OF TDEF_TABLE_fields(1,2) _ TDEF_TABLE_fields(3,4) sorted]) simp
  have g2: "dbGet db TDEF_META ?meta =
     (case kvLookup (kv db) metaKey of
        None \<Rightarrow> Inr ((False, None), ?meta)
      | Some v \<Rightarrow>
          (case decodeValues v [typedValue TYPE_BYTES] of
             Inl e \<Rightarrow> Inl Panic
           | Inr vs \<Rightarrow> Inr ((True, None), \<lparr>Record.Cols = [''key'', ''val''], Vals = bytesValue (bytes ''next_prefix'') # vs\<rparr>)))"
    unfolding metaKey_def
    by (rule dbGet_internal [OF TDEF_META_fields(1,2) _ TDEF_META_fields(3,4) sorted]) simp
  have chk: "tableDefCheck td = Inr ()"
  proof (cases "tableDefCheck td")
    case (Inl e)
    with ok show ?thesis by (cases e) (simp_all add: TableNew_def)
  next
    case (Inr u)
    then show ?thesis by simp
  qed
  have lk: "kvLookup (kv db) ?tkey = None"
  proof (cases "kvLookup (kv db) ?tkey")
    case None
    then show ?thesis .
  next
    case (Some v)
    with ok show ?thesis
      by (cases "decodeValues v [typedValue TYPE_BYTES]")
        (simp_all add: TableNew_def chk g1 Let_def del: decodeValues.simps)
  qed
  have p0: "Prefix td = 0"
    using ok by (cases "Prefix td = 0") (simp_all add: TableNew_def chk g1 lk Let_def)
  define db1 where "db1 = db\<lparr>kv := kvPut (kv db) metaKey (?enc (c + 1))\<rparr>"
  define db2 where "db2 = db1\<lparr>kv := kvPut (kv db1) ?tkey (escapeString (marshal (td\<lparr>Prefix := c\<rparr>)) @ [0])\<rparr>"
  let ?meta3 = "\<lparr>Record.Cols = [''key'', ''val''],
      Vals = [bytesValue (bytes ''next_prefix''), bytesValue (LittleEndian_PutUint32 (replicate 4 0) (c + 1))]\<rparr>"
  have u1: "dbUpdate db TDEF_META \<lparr>Record = ?meta3, Mode = 0, Updated = False, Added = False\<rparr> =
      Inr ((True, None), db1,
           \<lparr>Record = ?meta3, Mode = 0, Updated = True, Added = (kvLookup (kv db) metaKey = None)\<rparr>)"
    unfolding db1_def metaKey_def
    by (rule dbUpdate_internal [OF TDEF_META_fields(1,2) _ TDEF_META_fields(3)]) simp
  have u2: "dbUpdate db1 TDEF_TABLE
        \<lparr>Record = AddStr ?table ''def'' (marshal (td\<lparr>Prefix := c\<rparr>)), Mode = 0, Updated = False, Added = False\<rparr> =
      Inr ((True, None), db2,
           \<lparr>Record = AddStr ?table ''def'' (marshal (td\<lparr>Prefix := c\<rparr>)), Mode = 0, Updated = True,
            Added = (kvLookup (kv db1) ?tkey = None)\<rparr>)"
    unfolding db2_def AddStr_def Record0_def
    using dbUpdate_internal [OF TDEF_TABLE_fields(1,2) _ TDEF_TABLE_fields(3), of db1 "bytes (Name td)"
        "marshal (td\<lparr>Prefix := c\<rparr>)"]
    by simp
  have res: "td' = td\<lparr>Prefix := c\<rparr> \<and> TABLE_PREFIX_MIN \<le> c \<and> db' = db2"
  proof (cases "kvLookup (kv db) metaKey")
    case None
    with inv have c: "c = TABLE_PREFIX_MIN" by (simp add: metaInv_def)
    have m3: "AddStr ?meta ''val'' (replicate 4 0) = \<lparr>Record.Cols = [''key'', ''val''],
        Vals = [bytesValue (bytes ''next_prefix''), bytesValue (replicate 4 0)]\<rparr>"
      by (simp add: AddStr_def Record0_def)
    have "TableNew marshal db td = Inr (None, db2, td\<lparr>Prefix := c\<rparr>)"
      unfolding TableNew_def
      by (simp add: chk g1 lk p0 g2 None Let_def m3 bytesValue_Str_update
          length_LE_PutUint32 LE_PutUint32_twice u1 [unfolded c] u2 [unfolded c] c)
    with ok c show ?thesis by simp
  next
    case (Some v)
    with inv have v: "v = ?enc c" by (simp add: metaInv_def)
    have dv: "decodeValues v [typedValue TYPE_BYTES] = Inr [bytesValue (LittleEndian_PutUint32 (replicate 4 0) c)]"
      unfolding v by (rule decodeValues_bytes_single)
    have gt: "TABLE_PREFIX_MIN < c"
      using ok
      by (cases "TABLE_PREFIX_MIN < c")
        (simp_all add: TableNew_def chk g1 lk p0 g2 Some dv Let_def
          length_LE_PutUint32 LittleEndian_Uint32_PutUint32 del: decodeValues.simps)
    have "TableNew marshal db td = Inr (None, db2, td\<lparr>Prefix := c\<rparr>)"
      unfolding TableNew_def
      by (simp add: chk g1 lk p0 g2 Some dv Let_def bytesValue_Str_update gt
          length_LE_PutUint32 LittleEndian_Uint32_PutUint32 LE_PutUint32_twice u1 u2
          del: decodeValues.simps)
    with ok gt show ?thesis by simp
  qed
  have s1: "sorted_wrt (<) (map fst (kv db1))"
    unfolding db1_def using sorted by (simp add: sorted_kvPut)
  have s2: "sorted_wrt (<) (map fst (kv db2))"
    unfolding db2_def using s1 by (simp add: sorted_kvPut)
  have l2: "kvLookup (kv db2) metaKey = Some (?enc (c + 1))"
    using tableKey_neq_metaKey [of "bytes (Name td)"]
    by (auto simp: db2_def db1_def kvLookup_kvPut)
  from res s2 l2 show ?thesis
    by (simp add: metaInv_def)
qed

lemma metaInv_empty: "metaInv \<lparr>kv = []\<rparr> TABLE_PREFIX_MIN"
  by (simp add: metaInv_def)

lemma unat_succ_u32: "c + 1 \<noteq> 0 \<Longrightarrow> unat (c + 1) = Suc (unat c)" for c :: u32
  by (metis add.commute unatSuc)

lemma tableNewAll_prefixes:
  assumes "metaInv db c" and "tableNewAll marshal db tds = Inr (None, db', out)"
  shows "length out = length tds \<and>
         map (\<lambda>td. unat (Prefix td)) out = map (\<lambda>j. unat c + j) [0..<length tds] \<and>
         (\<forall>td\<in>set out. TABLE_PREFIX_MIN \<le> Prefix td) \<and>
         (tds \<noteq> [] \<longrightarrow> sorted_wrt (<) (map fst (kv db')) \<and> kvLookup (kv db') metaKey =
            Some (escapeString (LittleEndian_PutUint32 (replicate 4 0) (c + of_nat (length tds))) @ [0]))"
  using assms
proof (induction tds arbitrary: db c out)
  case Nil
  then show ?case by simp
next
  case (Cons td tds)
  from Cons.prems(2) obtain db1 td1 out1 where
    t: "TableNew marshal db td = Inr (None, db1, td1)" and
    r: "tableNewAll marshal db1 tds = Inr (None, db', out1)" and
    o: "out = td1 # out1"
    by (auto split: sum.splits prod.splits option.splits)
  from TableNew_step [OF Cons.prems(1) t] have
    td1: "td1 = td\<lparr>Prefix := c\<rparr>" and ge: "TABLE_PREFIX_MIN \<le> c" and
    inv1: "metaInv db1 (c + 1)" and
    lk1: "kvLookup (kv db1) metaKey =
           Some (escapeString (LittleEndian_PutUint32 (replicate 4 0) (c + 1)) @ [0])"
    by blast+
  from Cons.IH [OF inv1 r] have
    len: "length out1 = length tds" and
    pre: "map (\<lambda>td. unat (Prefix td)) out1 = map (\<lambda>j. unat (c + 1) + j) [0..<length tds]" and
    all: "\<forall>td\<in>set out1. TABLE_PREFIX_MIN \<le> Prefix td" and
    cnt: "tds \<noteq> [] \<longrightarrow> sorted_wrt (<) (map fst (kv db')) \<and> kvLookup (kv db') metaKey =
            Some (escapeString (LittleEndian_PutUint32 (replicate 4 0) (c + 1 + of_nat (length tds))) @ [0])"
    by blast+
  have pre': "map (\<lambda>td. unat (Prefix td)) out1 = map (\<lambda>j. unat c + Suc j) [0..<length tds]"
  proof (cases tds)
    case Nil
    with len show ?thesis by simp
  next
    case (Cons a list)
    with len obtain x xs where out1: "out1 = x # xs" by (cases out1) auto
    with pre Cons have "unat (Prefix x) = unat (c + 1)"
      by (simp add: upt_rec)
    then have "Prefix x = c + 1" by (simp add: word_unat_eq_iff)
    moreover from all out1 have "TABLE_PREFIX_MIN \<le> Prefix x" by simp
    ultimately have "c + 1 \<noteq> 0"
      by (auto simp: TABLE_PREFIX_MIN_def)
    then have "unat (c + 1) = Suc (unat c)" by (rule unat_succ_u32)
    with pre show ?thesis by simp
  qed
  have m: "map (\<lambda>j. unat c + j) [0..<Suc (length tds)] = unat c # map (\<lambda>j. unat c + Suc j) [0..<length tds]"
    by (simp add: upt_rec [of 0 "Suc (length tds)"] map_Suc_upt [symmetric] del: upt_Suc)
  have last: "sorted_wrt (<) (map fst (kv db')) \<and> kvLookup (kv db') metaKey =
      Some (escapeString (LittleEndian_PutUint32 (replicate 4 0) (c + of_nat (length (td # tds)))) @ [0])"
  proof (cases tds)
    case Nil
    with r have "db' = db1" by simp
    with lk1 inv1 Nil show ?thesis by (simp add: metaInv_def)
  next
    case (Cons a list)
    have "c + 1 + of_nat (length tds) = c + of_nat (length (td # tds))"
      by simp
    with cnt Cons show ?thesis by (simp only: list.distinct simp_thms)
  qed
  from len pre' all ge last m show ?case
    unfolding o td1 by simp
qed

text \<open>
  Claim C6 (prefix monotonicity). If a sequence of \<open>N\<close> \<^verbatim>\<open>TableNew\<close> calls on a fresh
  (empty) database all succeed, the \<open>N\<close> tables carry the prefixes
  \<open>100, 101, \<dots>, 100 + N - 1\<close> in call order, without wrap-around: they are distinct and
  strictly increasing and the first is 100. After the calls (\<open>N > 0\<close>) the row
  \<open>next_prefix\<close> of \<^verbatim>\<open>@meta\<close> holds the four little-endian bytes of \<open>100 + N\<close>
  (modulo \<open>2^32\<close>): each successful call has stored a counter one higher.
\<close>

theorem TableNew_prefix_monotonic:
  assumes "tableNewAll marshal \<lparr>kv = []\<rparr> tds = Inr (None, db, out)"
  shows "length out = length tds \<and>
         map (\<lambda>td. unat (Prefix td)) out = map (\<lambda>j. 100 + j) [0..<length tds] \<and>
         distinct (map Prefix out) \<and> sorted_wrt (<) (map Prefix out) \<and>
         (tds \<noteq> [] \<longrightarrow>
            dbGet db TDEF_META (AddStr Record0 ''key'' (bytes ''next_prefix'')) =
              Inr ((True, None),
                   \<lparr>Record.Cols = [''key'', ''val''],
                    Vals = [bytesValue (bytes ''next_prefix''),
                            bytesValue (LittleEndian_PutUint32 (replicate 4 0)
                                          (TABLE_PREFIX_MIN + of_nat (length tds)))]\<rparr>))"
proof -
  from tableNewAll_prefixes [OF metaInv_empty assms] have
    len: "length out = length tds" and
    pre: "map (\<lambda>td. unat (Prefix td)) out = map (\<lambda>j. unat TABLE_PREFIX_MIN + j) [0..<length tds]" and
    cnt: "tds \<noteq> [] \<longrightarrow> sorted_wrt (<) (map fst (kv db)) \<and> kvLookup (kv db) metaKey =
        Some (escapeString (LittleEndian_PutUint32 (replicate 4 0)
                (TABLE_PREFIX_MIN + of_nat (length tds))) @ [0])"
    by blast+
  from pre have pre100: "map (\<lambda>td. unat (Prefix td)) out = map (\<lambda>j. 100 + j) [0..<length tds]"
    by (simp add: TABLE_PREFIX_MIN_def)
  have "sorted_wrt (<) (map (\<lambda>j. 100 + j) [0..<length tds])"
    by (simp add: sorted_wrt_map)
  with pre100 have su: "sorted_wrt (<) (map (\<lambda>td. unat (Prefix td)) out)" by simp
  then have so: "sorted_wrt (<) (map Prefix out)"
    by (simp add: sorted_wrt_map word_less_nat_alt)
  then have di: "distinct (map Prefix out)"
    by (simp add: strict_sorted_iff)
  have get: "dbGet db TDEF_META (AddStr Record0 ''key'' (bytes ''next_prefix'')) =
      Inr ((True, None),
           \<lparr>Record.Cols = [''key'', ''val''],
            Vals = [bytesValue (bytes ''next_prefix''),
                    bytesValue (LittleEndian_PutUint32 (replicate 4 0)
                                  (TABLE_PREFIX_MIN + of_nat (length tds)))]\<rparr>)"
    if "tds \<noteq> []"
  proof -
    from that cnt have sorted: "sorted_wrt (<) (map fst (kv db))" and
      lk: "kvLookup (kv db) metaKey = Some (escapeString (LittleEndian_PutUint32 (replicate 4 0)
                (TABLE_PREFIX_MIN + of_nat (length tds))) @ [0])"
      by simp_all
    have "dbGet db TDEF_META (AddStr Record0 ''key'' (bytes ''next_prefix'')) =
     (case kvLookup (kv db) metaKey of
        None \<Rightarrow> Inr ((False, None), AddStr Record0 ''key'' (bytes ''next_prefix''))
      | Some v \<Rightarrow>
          (case decodeValues v [typedValue TYPE_BYTES] of
             Inl e \<Rightarrow> Inl Panic
           | Inr vs \<Rightarrow> Inr ((True, None), \<lparr>Record.Cols = [''key'', ''val''], Vals = bytesValue (bytes ''next_prefix'') # vs\<rparr>)))"
      unfolding metaKey_def
      by (rule dbGet_internal [OF TDEF_META_fields(1,2) _ TDEF_META_fields(3,4) sorted]) simp
    then show ?thesis
      by (simp add: lk decodeValues_bytes_single del: decodeValues.simps)
  qed
  from len pre100 di so get show ?thesis by blast
qed

theorem TableNew_prefix_monotonic_witness:
  "tableNewAll exampleMarshal \<lparr>kv = []\<rparr> [exampleTable, exampleTable\<lparr>Name := ''u''\<rparr>] =
     Inr (None,
          \<lparr>kv = [([0, 0, 0, 1, 110, 101, 120, 116, 95, 112, 114, 101, 102, 105, 120, 0],
                  [102, 1, 1, 1, 1, 1, 1, 0]),
                 ([0, 0, 0, 2, 116, 0], [116, 0]),
                 ([0, 0, 0, 2, 117, 0], [117, 0])]\<rparr>,
          [exampleTable\<lparr>Prefix := 100\<rparr>, exampleTable\<lparr>Name := ''u'', Prefix := 101\<rparr>]) \<and>
   map (\<lambda>td. unat (Prefix td)) [exampleTable\<lparr>Prefix := 100\<rparr>, exampleTable\<lparr>Name := ''u'', Prefix := 101\<rparr>]
     = [100, 101] \<and>
   dbGet \<lparr>kv = [([0, 0, 0, 1, 110, 101, 120, 116, 95, 112, 114, 101, 102, 105, 120, 0],
                  [102, 1, 1, 1, 1, 1, 1, 0]),
                 ([0, 0, 0, 2, 116, 0], [116, 0]),
                 ([0, 0, 0, 2, 117, 0], [117, 0])]\<rparr>
     TDEF_META (AddStr Record0 ''key'' (bytes ''next_prefix'')) =
     Inr ((True, None),
          \<lparr>Record.Cols = [''key'', ''val''],
           Vals = [bytesValue (bytes ''next_prefix''), bytesValue [102, 0, 0, 0]]\<rparr>)"
proof -
  have e: "tableNewAll exampleMarshal \<lparr>kv = []\<rparr> [exampleTable, exampleTable\<lparr>Name := ''u''\<rparr>] =
     Inr (None,
          \<lparr>kv = [([0, 0, 0, 1, 110, 101, 120, 116, 95, 112, 114, 101, 102, 105, 120, 0],
                  [102, 1, 1, 1, 1, 1, 1, 0]),
                 ([0, 0, 0, 2, 116, 0], [116, 0]),
                 ([0, 0, 0, 2, 117, 0], [117, 0])]\<rparr>,
          [exampleTable\<lparr>Prefix := 100\<rparr>, exampleTable\<lparr>Name := ''u'', Prefix := 101\<rparr>])"
    by code_simp
  have b: "LittleEndian_PutUint32 (replicate 4 0)
      (TABLE_PREFIX_MIN + of_nat (length [exampleTable, exampleTable\<lparr>Name := ''u''\<rparr>])) = [102, 0, 0, 0]"
    by (simp add: LittleEndian_PutUint32_def TABLE_PREFIX_MIN_def)
  from TableNew_prefix_monotonic [OF e] e show ?thesis
    unfolding b by (simp add: upt_rec)
qed

subsection \<open>Scans\<close>

text \<open>Keys.\<close>

lemma append_less_append: "xs @ a < xs @ b \<longleftrightarrow> a < b" for a b :: "u8 list"
  by (induction xs) simp_all

lemma append_le_append: "xs @ a \<le> xs @ b \<longleftrightarrow> a \<le> b" for a b :: "u8 list"
  by (induction xs) simp_all

lemma between_prefix:
  "p @ a \<le> k \<Longrightarrow> k \<le> p @ b \<Longrightarrow> take (length p) k = p" for k :: "u8 list"
proof (induction p arbitrary: k)
  case Nil
  then show ?case by simp
next
  case (Cons x p)
  from Cons.prems(1) obtain y k' where k: "k = y # k'"
    by (cases k) simp_all
  from Cons.prems have "x = y"
    unfolding k by (auto simp: Cons_le_Cons)
  with Cons.prems Cons.IH [of k'] show ?case
    unfolding k by (auto simp: Cons_le_Cons)
qed

lemma rowKey_less: "sint i < sint j \<Longrightarrow> rowKey p i < rowKey p j"
  unfolding rowKey_def append_less_append
  by (rule PutUint64_less) (rule flip_less)

lemma encodeKey_int64: "encodeKey [] p [int64Value i] = Inr (rowKey p i)"
  by (simp add: encodeKey_def rowKey_def int64Value_def)

lemma take_rowKey: "take 4 (rowKey p i) = PutUint32 p"
  by (simp add: rowKey_def length_PutUint32)

text \<open>The boundary records.\<close>

lemma GetIndex_absent: "key \<notin> set cols \<Longrightarrow> GetIndex cols key = None"
  by (induction cols) auto

lemma reorderLoop_absent:
  "\<forall>c'\<in>set cols. c' \<notin> set (Record.Cols rec) \<Longrightarrow>
     reorderLoop td rec i cols = Inr (replicate (length cols) Value0)"
proof (induction cols arbitrary: i)
  case Nil
  then show ?case by simp
next
  case (Cons c' cols)
  from Cons.prems have "GetIndex (Record.Cols rec) c' = None"
    by (simp add: GetIndex_absent)
  then have "Get rec c' = Inr None" by (simp add: Get_def)
  with Cons show ?case by simp
qed

lemma valuesCompleteLoop_zeros:
  "1 \<le> i \<Longrightarrow> valuesCompleteLoop td i (replicate m Value0) 1 = Inr ()"
  by (induction m arbitrary: i) (simp_all add: Value0_def)

lemma checkRecord_key:
  assumes "Cols td = c # cs" and "Types td = TYPE_INT64 # tys" and "c \<notin> set cs"
  shows "checkRecord td (AddInt64 Record0 c k) 1 = Inr (int64Value k # replicate (length cs) Value0)"
proof -
  let ?rec = "AddInt64 Record0 c k"
  have rc: "Record.Cols ?rec = [c]" "Vals ?rec = [int64Value k]"
    by (simp_all add: AddInt64_def Record0_def)
  have g: "Get ?rec c = Inr (Some (int64Value k))"
    by (simp add: Get_def rc)
  from assms(3) have "\<forall>c'\<in>set cs. c' \<notin> set (Record.Cols ?rec)"
    by (auto simp: rc)
  from reorderLoop_absent [OF this]
  have l: "reorderLoop td ?rec (Suc 0) cs = Inr (replicate (length cs) Value0)" .
  have r: "reorderRecord td ?rec = Inr (int64Value k # replicate (length cs) Value0)"
    using assms(1,2) g l by (simp add: reorderRecord_def rc int64Value_def)
  have v: "valuesComplete td (int64Value k # replicate (length cs) Value0) 1 = Inr ()"
    by (simp add: valuesComplete_def int64Value_def valuesCompleteLoop_zeros)
  from r v show ?thesis by (simp add: checkRecord_def)
qed

text \<open>Seek and the scan loop.\<close>

lemma seekFirst_GE_takeWhile:
  "seekFirst es CMP_GE key = Inr (length (takeWhile (\<lambda>e. fst e < key) es))"
  by (induction es) (auto simp: not_le)

lemma seekFirst_sat:
  "seekFirst es cmp key = Inr j \<Longrightarrow> j < length es \<Longrightarrow> cmpOk (fst (es ! j)) cmp key = Inr True"
proof (induction es arbitrary: j)
  case Nil
  then show ?case by simp
next
  case (Cons e es)
  obtain k v where e: "e = (k, v)" by (cases e)
  show ?case
  proof (cases "cmpOk k cmp key")
    case (Inl x)
    with Cons.prems show ?thesis by (simp add: e)
  next
    case (Inr ok)
    show ?thesis
    proof (cases ok)
      case True
      with Inr Cons.prems show ?thesis by (simp add: e)
    next
      case False
      with Inr Cons.prems obtain j' where j: "seekFirst es cmp key = Inr j'" "j = Suc j'"
        by (auto simp: e split: sum.splits)
      with Cons.prems(2) have "j' < length es" by simp
      from Cons.IH [OF j(1) this] j(2) show ?thesis by simp
    qed
  qed
qed

lemma Deref_decodeRow:
  assumes "Valid sc = Inr True" and "iter sc = Some it" and "tdef sc = Some td"
  shows "Deref sc rec = decodeRow td (entries it ! nat (pos it))"
proof -
  from assms(1,2) have "iterValid it"
    by (auto simp: Valid_def split: if_splits)
  then have "iterDeref it = Inr (entries it ! nat (pos it))"
    by (simp add: iterDeref_def)
  with assms show ?thesis
    by (cases "entries it ! nat (pos it)")
       (simp add: Deref_def decodeRow_def Let_def split: sum.splits)
qed

lemma scan_loop:
  assumes "iter sc = Some \<lparr>entries = es, pos = int i\<rparr>" and "0 < Cmp1 sc"
    and "Cmp2 sc = CMP_LE" and "tdef sc = Some td"
    and "map (decodeRow td) (takeWhile (\<lambda>e. fst e \<le> keyEnd sc) (drop i es)) = map Inr rows"
  shows "scanRows (Suc (length rows) + n) sc = Some (Inr rows)"
  using assms
proof (induction rows arbitrary: i sc)
  case Nil
  then have tw: "takeWhile (\<lambda>e. fst e \<le> keyEnd sc) (drop i es) = []" by simp
  have "Valid sc = Inr False"
  proof (cases "i < length es")
    case False
    with Nil.prems(1) show ?thesis
      by (simp add: Valid_def iterValid_def)
  next
    case True
    then have d: "drop i es = es ! i # drop (Suc i) es"
      by (simp add: Cons_nth_drop_Suc)
    with tw have "\<not> fst (es ! i) \<le> keyEnd sc"
      by (auto split: if_splits)
    with True Nil.prems(1,3) show ?thesis
      by (cases "es ! i") (simp add: Valid_def iterValid_def iterDeref_def)
  qed
  then show ?case by simp
next
  case (Cons r rows)
  let ?tw = "takeWhile (\<lambda>e. fst e \<le> keyEnd sc) (drop i es)"
  from Cons.prems(5) have ne: "?tw \<noteq> []" by auto
  then have il: "i < length es" by (cases "i < length es") auto
  then have d: "drop i es = es ! i # drop (Suc i) es"
    by (simp add: Cons_nth_drop_Suc)
  from ne have le: "fst (es ! i) \<le> keyEnd sc"
    unfolding d by (auto split: if_splits)
  then have tw: "?tw = es ! i # takeWhile (\<lambda>e. fst e \<le> keyEnd sc) (drop (Suc i) es)"
    unfolding d by simp
  from Cons.prems(5) have r: "decodeRow td (es ! i) = Inr r"
    and rest: "map (decodeRow td) (takeWhile (\<lambda>e. fst e \<le> keyEnd sc) (drop (Suc i) es)) = map Inr rows"
    unfolding tw by simp_all
  have valid: "Valid sc = Inr True"
    using il le Cons.prems(1,3)
    by (cases "es ! i") (simp add: Valid_def iterValid_def iterDeref_def)
  from Deref_decodeRow [OF valid Cons.prems(1) Cons.prems(4)] r
  have deref: "Deref sc Record0 = Inr r" by simp
  let ?sc' = "sc\<lparr>iter := Some \<lparr>entries = es, pos = int (Suc i)\<rparr>\<rparr>"
  have nxt: "Next sc = Inr ?sc'"
    using valid Cons.prems(1,2) by (simp add: Next_def iterNext_def)
  have "scanRows (Suc (length rows) + n) ?sc' = Some (Inr rows)"
    by (rule Cons.IH) (use Cons.prems rest in simp_all)
  with valid deref nxt show ?case by simp
qed

text \<open>Ascending stores.\<close>

lemma takeWhile_sorted:
  "sorted_wrt (<) (map fst es) \<Longrightarrow>
     takeWhile (\<lambda>e. fst e \<le> b) es = filter (\<lambda>e. fst e \<le> b) es" for b :: "u8 list"
proof (induction es)
  case Nil
  then show ?case by simp
next
  case (Cons e es)
  show ?case
  proof (cases "fst e \<le> b")
    case True
    with Cons show ?thesis by simp
  next
    case False
    with Cons.prems have "\<forall>x\<in>set es. \<not> fst x \<le> b" by auto
    then have "filter (\<lambda>e. fst e \<le> b) es = []" by (simp add: filter_empty_conv)
    with False show ?thesis by simp
  qed
qed

lemma range_sorted:
  "sorted_wrt (<) (map fst es) \<Longrightarrow>
     takeWhile (\<lambda>e. fst e \<le> b) (dropWhile (\<lambda>e. fst e < a) es)
       = filter (\<lambda>e. a \<le> fst e \<and> fst e \<le> b) es" for a b :: "u8 list"
proof (induction es)
  case Nil
  then show ?case by simp
next
  case (Cons e es)
  show ?case
  proof (cases "fst e < a")
    case True
    with Cons show ?thesis by auto
  next
    case False
    from Cons.prems have s: "sorted_wrt (<) (map fst (e # es))" .
    from Cons.prems False have "\<forall>x\<in>set (e # es). a \<le> fst x" by auto
    then have "filter (\<lambda>e. a \<le> fst e \<and> fst e \<le> b) (e # es) = filter (\<lambda>e. fst e \<le> b) (e # es)"
      by (intro filter_cong) auto
    with False takeWhile_sorted [OF s, of b] show ?thesis by simp
  qed
qed

lemma kvLookup_mem:
  "sorted_wrt (<) (map fst es) \<Longrightarrow> (k, v) \<in> set es \<Longrightarrow> kvLookup es k = Some v"
  by (induction es) auto

lemma kvLookup_in: "kvLookup es k = Some v \<Longrightarrow> (k, v) \<in> set es"
  by (induction es) (auto split: if_splits)

lemma three_keys:
  fixes a b c :: "u8 list"
  assumes s: "sorted_wrt (<) (map fst fs)" and k: "set (map fst fs) = {a, b, c}"
    and o: "a < b" "b < c"
  shows "\<exists>x y z. fs = [(a, x), (b, y), (c, z)]"
proof -
  from o have "sorted_wrt (<) [a, b, c]" by auto
  moreover from k have "set (map fst fs) = set [a, b, c]" by auto
  ultimately have "map fst fs = [a, b, c]"
    using s by (metis strict_sorted_equal)
  then show ?thesis
    by (auto simp: map_eq_Cons_conv)
qed

lemma typedCell_cases: "typedCell v \<Longrightarrow> (\<exists>s. v = bytesValue s) \<or> (\<exists>i. v = int64Value i)"
  by (cases v) (auto simp: typedCell_def bytesValue_def int64Value_def)

lemma seekFirst_LE_takeWhile:
  "seekFirst es CMP_LE key = Inr (length (takeWhile (\<lambda>e. \<not> fst e \<le> key) es))"
  by (induction es) auto

lemma Seek_LE_Valid:
  assumes "Seek es key CMP_LE = Inr it" and "key < ke"
  shows "Valid (sc\<lparr>keyEnd := ke, iter := Some it, Cmp2 := CMP_GE\<rparr>) = Inr False"
proof -
  let ?j = "length (takeWhile (\<lambda>e. \<not> fst e \<le> key) (rev es))"
  from assms(1) have it: "it = \<lparr>entries = es, pos = int (length es) - 1 - int ?j\<rparr>"
    by (simp add: Seek_def seekFirst_LE_takeWhile)
  show ?thesis
  proof (cases "iterValid it")
    case False
    then show ?thesis by (simp add: Valid_def)
  next
    case True
    then have j: "?j < length es" by (simp add: it iterValid_def)
    then have p: "nat (pos it) = length es - Suc ?j" by (simp add: it) 
    from j have jr: "?j < length (rev es)" by simp
    from seekFirst_sat [OF seekFirst_LE_takeWhile jr]
    have "fst (rev es ! ?j) \<le> key" by simp
    with j have "fst (es ! (length es - Suc ?j)) \<le> key" by (simp add: rev_nth)
    with assms(2) have "\<not> ke \<le> fst (es ! nat (pos it))" by (simp add: p)
    with True show ?thesis
      by (cases "es ! nat (pos it)") (simp add: Valid_def iterDeref_def it)
  qed
qed

lemma dbScan_keys:
  assumes pk: "PKeys td = 1" and cols: "Cols td = c # cs" and types: "Types td = TYPE_INT64 # tys"
    and c: "c \<notin> set cs"
    and sg: "(0 < cmp1 \<and> cmp2 < 0) \<or> (cmp1 < 0 \<and> 0 < cmp2)"
    and sk: "Seek (kv db) (rowKey (Prefix td) k1) cmp1 = Inr it"
  shows "dbScan db td \<lparr>Cmp1 = cmp1, Cmp2 = cmp2, Key1 = AddInt64 Record0 c k1,
             Key2 = AddInt64 Record0 c k2, tdef = None, iter = None, keyEnd = []\<rparr>
         = Inr (None, \<lparr>Cmp1 = cmp1, Cmp2 = cmp2, Key1 = AddInt64 Record0 c k1,
             Key2 = AddInt64 Record0 c k2, tdef = Some td, iter = Some it,
             keyEnd = rowKey (Prefix td) k2\<rparr>)"
  using sg sk
  by (simp add: dbScan_def pk checkRecord_key [OF cols types c] sliceOk_def encodeKey_int64)

lemma holdsRow_entry:
  assumes pk: "PKeys td = 1" and types: "Types td = TYPE_INT64 # tys"
    and row: "tableRow td (int64Value i # rest)" and holds: "holdsRow db td (int64Value i # rest)"
  shows "kvLookup (kv db) (rowKey (Prefix td) i) = Some (concat (map encodeValue rest))"
    and "decodeRow td (rowKey (Prefix td) i, concat (map encodeValue rest))
           = Inr \<lparr>Record.Cols = Cols td, Vals = int64Value i # rest\<rparr>"
proof -
  from row types have ty: "map Type rest = tys" and tc: "list_all typedCell rest"
    by (simp_all add: tableRow_def)
  from tc have can: "\<forall>v\<in>set rest. (\<exists>s. v = bytesValue s) \<or> (\<exists>i. v = int64Value i)"
    by (auto simp: list_all_iff dest: typedCell_cases)
  then have "\<forall>v\<in>set rest. Type v = TYPE_BYTES \<or> Type v = TYPE_INT64"
    by (auto simp: bytesValue_def int64Value_def)
  then have enc: "encodeValues [] rest = Inr (concat (map encodeValue rest))"
    by (simp add: encodeValues_concat)
  from holds show "kvLookup (kv db) (rowKey (Prefix td) i) = Some (concat (map encodeValue rest))"
    by (simp add: holdsRow_def pk encodeKey_int64 enc)
  have cells: "map typedValue tys = map (\<lambda>v. typedValue (Type v)) rest"
    unfolding ty [symmetric] by simp
  have dk: "decodeKey (rowKey (Prefix td) i) [typedValue TYPE_INT64] = Inr [int64Value i]"
    using decodeValues_int64 [of i "[]" "[]"]
    by (simp add: decodeKey_def rowKey_def length_PutUint32 length_PutUint64)
  from decodeValues_concat [OF can] dk
  show "decodeRow td (rowKey (Prefix td) i, concat (map encodeValue rest))
           = Inr \<lparr>Record.Cols = Cols td, Vals = int64Value i # rest\<rparr>"
    by (simp add: decodeRow_def types pk sliceOk_def cells)
qed

lemma sint_small: "sint (1 :: i64) = 1" "sint (2 :: i64) = 2" "sint (3 :: i64) = 3"
  "sint (5 :: i64) = 5"
  by simp_all

lemma exampleStore_built:
  "TableNew exampleMarshal \<lparr>kv = []\<rparr> exampleTable =
     Inr (None,
          \<lparr>kv = [([0, 0, 0, 1, 110, 101, 120, 116, 95, 112, 114, 101, 102, 105, 120, 0],
                  [101, 1, 1, 1, 1, 1, 1, 0]),
                 ([0, 0, 0, 2, 116, 0], [116, 0])]\<rparr>,
          exampleTable\<lparr>Prefix := 100\<rparr>) \<and>
   insertAll
     \<lparr>kv = [([0, 0, 0, 1, 110, 101, 120, 116, 95, 112, 114, 101, 102, 105, 120, 0],
             [101, 1, 1, 1, 1, 1, 1, 0]),
            ([0, 0, 0, 2, 116, 0], [116, 0])]\<rparr>
     (exampleTable\<lparr>Prefix := 100\<rparr>)
     [exampleRow 5 ''e'', exampleRow 1 ''a'', exampleRow 3 ''c'', exampleRow 2 ''b'']
     = Inr exampleStore"
  by code_simp

text \<open>
  Claim C7 (scan boundaries), as the code has it. Take a table whose primary key is its
  first column alone, of type INT64 and with a name that no other column has, and a store
  with ascending keys that holds the rows with the key values 1, 2, 3 and 5 (each row one
  typed cell per column; \<open>rest i\<close> are the cells after the key of row \<open>i\<close>) and, under the
  prefix of the table, no other key. Other tables may be in the store. Then:

  \<^item> the ascending scan with the inclusive bounds \<open>[2, 5]\<close> (\<open>Cmp1 = CMP_GE\<close> on key 2,
    \<open>Cmp2 = CMP_LE\<close> on key 5), driven by \<^verbatim>\<open>Valid\<close>, \<^verbatim>\<open>Deref\<close> and \<^verbatim>\<open>Next\<close>, yields exactly
    the rows with the keys 2, 3, 5 in that order (four rounds of the loop or more);

  \<^item> with both comparator signs reversed (\<open>Cmp1 = - CMP_GE\<close> on key 2, \<open>Cmp2 = - CMP_LE\<close>
    on key 5) \<^verbatim>\<open>dbScan\<close> reports no error: the pair is the legal descending one, and the
    scan yields no row;

  \<^item> for every database, table and request, two comparators of the same sign are rejected
    as a bad range.
\<close>

theorem scan_boundaries:
  fixes rest :: "i64 \<Rightarrow> Value list"
  assumes pk: "PKeys td = 1" and cols: "Cols td = c # cs" and types: "Types td = TYPE_INT64 # tys"
    and c: "c \<notin> set cs"
    and sorted: "sorted_wrt (<) (map fst (kv db))"
    and rows: "\<forall>i\<in>{1, 2, 3, 5}. tableRow td (int64Value i # rest i) \<and>
                 holdsRow db td (int64Value i # rest i)"
    and only: "\<forall>k\<in>fst ` set (kv db). take 4 k = PutUint32 (Prefix td) \<longrightarrow>
                 (\<exists>i\<in>{1, 2, 3, 5}. encodeKey [] (Prefix td) [int64Value i] = Inr k)"
  shows "(\<exists>sc. dbScan db td \<lparr>Cmp1 = CMP_GE, Cmp2 = CMP_LE, Key1 = AddInt64 Record0 c 2,
                   Key2 = AddInt64 Record0 c 5, tdef = None, iter = None, keyEnd = []\<rparr>
                 = Inr (None, sc) \<and>
               scanRows (4 + n) sc =
                 Some (Inr [\<lparr>Record.Cols = Cols td, Vals = int64Value 2 # rest 2\<rparr>,
                            \<lparr>Record.Cols = Cols td, Vals = int64Value 3 # rest 3\<rparr>,
                            \<lparr>Record.Cols = Cols td, Vals = int64Value 5 # rest 5\<rparr>])) \<and>
         (\<exists>sc. dbScan db td \<lparr>Cmp1 = - CMP_GE, Cmp2 = - CMP_LE, Key1 = AddInt64 Record0 c 2,
                   Key2 = AddInt64 Record0 c 5, tdef = None, iter = None, keyEnd = []\<rparr>
                 = Inr (None, sc) \<and>
               scanRows (4 + n) sc = Some (Inr [])) \<and>
         (\<forall>db' td' req. (0 < Cmp1 req \<and> 0 < Cmp2 req) \<or> (Cmp1 req < 0 \<and> Cmp2 req < 0) \<longrightarrow>
            dbScan db' td' req = Inr (Some ''bad range'', req))"
proof (intro conjI)
  let ?P = "Prefix td"
  let ?es = "kv db"
  let ?key = "rowKey ?P"
  let ?val = "\<lambda>i. concat (map encodeValue (rest i))"
  let ?row = "\<lambda>i. \<lparr>Record.Cols = Cols td, Vals = int64Value i # rest i\<rparr>"
  have ent: "kvLookup ?es (?key i) = Some (?val i)" "decodeRow td (?key i, ?val i) = Inr (?row i)"
    if "i \<in> {1, 2, 3, 5}" for i
    using holdsRow_entry [OF pk types, of i "rest i" db] rows that by blast+
  have o12: "?key 1 < ?key 2" and o23: "?key 2 < ?key 3" and o35: "?key 3 < ?key 5"
    by (rule rowKey_less, simp add: sint_small)+
  from o23 o35 have o25: "?key 2 < ?key 5" by simp
  let ?i0 = "length (takeWhile (\<lambda>e. fst e < ?key 2) ?es)"
  let ?it = "\<lparr>entries = ?es, pos = int ?i0\<rparr>"
  let ?sc = "\<lparr>Cmp1 = CMP_GE, Cmp2 = CMP_LE, Key1 = AddInt64 Record0 c 2,
             Key2 = AddInt64 Record0 c 5, tdef = Some td, iter = Some ?it, keyEnd = ?key 5\<rparr>"
  have sk: "Seek ?es (?key 2) CMP_GE = Inr ?it"
    by (simp add: Seek_def seekFirst_GE_takeWhile)
  have sg: "(0 < CMP_GE \<and> CMP_LE < 0) \<or> (CMP_GE < 0 \<and> 0 < CMP_LE)" by simp
  note scan = dbScan_keys [OF pk cols types c sg sk, of 5]
  let ?fs = "filter (\<lambda>e. ?key 2 \<le> fst e \<and> fst e \<le> ?key 5) ?es"
  have tw: "takeWhile (\<lambda>e. fst e \<le> ?key 5) (drop ?i0 ?es) = ?fs"
    using range_sorted [OF sorted, of "?key 5" "?key 2"] by (simp add: dropWhile_eq_drop)
  have keys: "set (map fst ?fs) = {?key 2, ?key 3, ?key 5}"
  proof (intro equalityI subsetI)
    fix k assume "k \<in> set (map fst ?fs)"
    then have k: "k \<in> fst ` set ?es" "?key 2 \<le> k" "k \<le> ?key 5" by auto
    from k(2,3) have "take (length (PutUint32 ?P)) k = PutUint32 ?P"
      unfolding rowKey_def by (rule between_prefix)
    then have "take 4 k = PutUint32 ?P" by (simp add: length_PutUint32)
    with only k(1) have "\<exists>i\<in>{1, 2, 3, 5}. encodeKey [] ?P [int64Value i] = Inr k"
      by blast
    then obtain i where i: "i \<in> {1, 2, 3, 5}" "k = ?key i"
      unfolding encodeKey_int64 by blast
    from k(2) o12 have "k \<noteq> ?key 1" by auto
    with i show "k \<in> {?key 2, ?key 3, ?key 5}" by auto
  next
    fix k assume "k \<in> {?key 2, ?key 3, ?key 5}"
    then obtain i where i: "i \<in> {2, 3, 5}" "k = ?key i" by auto
    then have "i \<in> {1, 2, 3, 5}" by auto
    from ent(1) [OF this] have "(?key i, ?val i) \<in> set ?es" by (rule kvLookup_in)
    moreover from i o23 o35 o25 have "?key 2 \<le> k \<and> k \<le> ?key 5" by auto
    ultimately show "k \<in> set (map fst ?fs)" using i(2) by force
  qed
  have sfs: "sorted_wrt (<) (map fst ?fs)"
    using sorted by (simp add: sorted_wrt_map sorted_wrt_filter)
  from three_keys [OF sfs keys o23 o35]
  obtain x y z where fs: "?fs = [(?key 2, x), (?key 3, y), (?key 5, z)]" by blast
  have v: "v = ?val i" if "(?key i, v) \<in> set ?fs" "i \<in> {1, 2, 3, 5}" for i v
  proof -
    from that(1) have "(?key i, v) \<in> set ?es" by simp
    from kvLookup_mem [OF sorted this] ent(1) [OF that(2)] show ?thesis by simp
  qed
  have "x = ?val 2" "y = ?val 3" "z = ?val 5"
    by (rule v, simp add: fs, simp)+
  with fs have fs': "?fs = [(?key 2, ?val 2), (?key 3, ?val 3), (?key 5, ?val 5)]" by simp
  have dec: "map (decodeRow td) (takeWhile (\<lambda>e. fst e \<le> keyEnd ?sc) (drop ?i0 ?es))
      = map Inr [?row 2, ?row 3, ?row 5]"
    using tw fs' ent(2) by simp
  have len: "Suc (length [?row 2, ?row 3, ?row 5]) + n = 4 + n" by simp
  have "scanRows (4 + n) ?sc = Some (Inr [?row 2, ?row 3, ?row 5])"
    unfolding len [symmetric] by (rule scan_loop [OF _ _ _ _ dec]) simp_all
  with scan show "\<exists>sc. dbScan db td \<lparr>Cmp1 = CMP_GE, Cmp2 = CMP_LE, Key1 = AddInt64 Record0 c 2,
                   Key2 = AddInt64 Record0 c 5, tdef = None, iter = None, keyEnd = []\<rparr>
                 = Inr (None, sc) \<and>
               scanRows (4 + n) sc = Some (Inr [?row 2, ?row 3, ?row 5])"
    by blast
  have m: "- CMP_GE = CMP_LE" "- CMP_LE = CMP_GE" by (simp_all add: CMP_GE_def CMP_LE_def)
  let ?j = "length (takeWhile (\<lambda>e. \<not> fst e \<le> ?key 2) (rev ?es))"
  let ?it' = "\<lparr>entries = ?es, pos = int (length ?es) - 1 - int ?j\<rparr>"
  let ?sc' = "\<lparr>Cmp1 = CMP_LE, Cmp2 = CMP_GE, Key1 = AddInt64 Record0 c 2,
             Key2 = AddInt64 Record0 c 5, tdef = Some td, iter = Some ?it', keyEnd = ?key 5\<rparr>"
  have sk': "Seek ?es (?key 2) CMP_LE = Inr ?it'"
    by (simp add: Seek_def seekFirst_LE_takeWhile)
  have sg': "(0 < CMP_LE \<and> CMP_GE < 0) \<or> (CMP_LE < 0 \<and> 0 < CMP_GE)" by simp
  note scan' = dbScan_keys [OF pk cols types c sg' sk', of 5]
  from Seek_LE_Valid [OF sk' o25, of ?sc'] have "Valid ?sc' = Inr False" by simp
  then have inv: "scanRows (Suc m) ?sc' = Some (Inr [])" for m by simp
  have "4 + n = Suc (3 + n)" by simp
  with inv [of "3 + n"] have "scanRows (4 + n) ?sc' = Some (Inr [])" by (simp only:)
  with scan' show "\<exists>sc. dbScan db td \<lparr>Cmp1 = - CMP_GE, Cmp2 = - CMP_LE, Key1 = AddInt64 Record0 c 2,
                   Key2 = AddInt64 Record0 c 5, tdef = None, iter = None, keyEnd = []\<rparr>
                 = Inr (None, sc) \<and>
               scanRows (4 + n) sc = Some (Inr [])"
    unfolding m by blast
  show "\<forall>db' td' req. (0 < Cmp1 req \<and> 0 < Cmp2 req) \<or> (Cmp1 req < 0 \<and> Cmp2 req < 0) \<longrightarrow>
            dbScan db' td' req = Inr (Some ''bad range'', req)"
    by (auto simp: dbScan_def)
qed

theorem scan_boundaries_witness:
  "\<exists>sc. dbScan exampleStore (exampleTable\<lparr>Prefix := 100\<rparr>)
           \<lparr>Cmp1 = CMP_GE, Cmp2 = CMP_LE, Key1 = AddInt64 Record0 ''id'' 2,
              Key2 = AddInt64 Record0 ''id'' 5, tdef = None, iter = None, keyEnd = []\<rparr>
         = Inr (None, sc) \<and>
       scanRows 4 sc = Some (Inr [exampleRow 2 ''b'', exampleRow 3 ''c'', exampleRow 5 ''e''])"
proof -
  let ?td = "exampleTable\<lparr>Prefix := 100\<rparr>"
  let ?rest = "\<lambda>i :: i64. [bytesValue [ucast i + 96]]"
  have pk: "PKeys ?td = 1" and cols: "Cols ?td = ''id'' # [''name'']"
    and types: "Types ?td = TYPE_INT64 # [TYPE_BYTES]" and c: "''id'' \<notin> set [''name'']"
    by (simp_all add: exampleTable_def)
  have sorted: "sorted_wrt (<) (map fst (kv exampleStore))"
    by code_simp
  have rows: "\<forall>i\<in>{1, 2, 3, 5}. tableRow ?td (int64Value i # ?rest i) \<and>
      holdsRow exampleStore ?td (int64Value i # ?rest i)"
    by code_simp
  have only: "\<forall>k\<in>fst ` set (kv exampleStore). take 4 k = PutUint32 (Prefix ?td) \<longrightarrow>
      (\<exists>i\<in>{1, 2, 3, 5}. encodeKey [] (Prefix ?td) [int64Value i] = Inr k)"
    by code_simp
  have r: "\<lparr>Record.Cols = Cols ?td, Vals = int64Value 2 # ?rest 2\<rparr> = exampleRow 2 ''b''"
    "\<lparr>Record.Cols = Cols ?td, Vals = int64Value 3 # ?rest 3\<rparr> = exampleRow 3 ''c''"
    "\<lparr>Record.Cols = Cols ?td, Vals = int64Value 5 # ?rest 5\<rparr> = exampleRow 5 ''e''"
    by (simp_all add: exampleRow_def exampleTable_def AddStr_def AddInt64_def Record0_def bytes_def)
  from scan_boundaries [OF pk cols types c sorted rows only, of 0] show ?thesis
    unfolding r by simp
qed

text \<open>
  Claim C7 as stated fails: the scan of the same bounds with the comparator signs
  reversed does not fail with "bad range".
\<close>

theorem scan_reversed_signs_accepted:
  "exampleScan (- CMP_GE) 2 (- CMP_LE) 5 \<noteq> Some (Some ''bad range'', None)"
  by code_simp

section \<open>Verification of the free list\<close>

subsection \<open>Nodes\<close>

lemma LE64_byte_at:
  "k + 8 \<le> 64 \<Longrightarrow>
     bit (push_bit k (ucast (ucast (drop_bit k v) :: u8)) :: u64) n \<longleftrightarrow> k \<le> n \<and> n < k + 8 \<and> bit v n"
  for v :: u64
  by (auto simp add: bit_simps)

lemma LittleEndian_Uint64_PutUint64: "LittleEndian_Uint64 (LittleEndian_PutUint64 b v) = v"
  unfolding LittleEndian_Uint64_def LittleEndian_PutUint64_def
  apply (rule bit_word_eqI)
  using LE64_byte_at [of 0 v] LE64_byte_at [of 8 v] LE64_byte_at [of 16 v] LE64_byte_at [of 24 v]
    LE64_byte_at [of 32 v] LE64_byte_at [of 40 v] LE64_byte_at [of 48 v] LE64_byte_at [of 56 v]
  apply (simp add: bit_or_iff)
  apply arith
  done

lemma LittleEndian_Uint64_cong:
  "\<forall>i<8. a ! i = b ! i \<Longrightarrow> LittleEndian_Uint64 a = LittleEndian_Uint64 b"
  by (simp add: LittleEndian_Uint64_def)

lemma length_LE_PutUint64: "length (LittleEndian_PutUint64 b v) = 8 + (length b - 8)"
  by (simp add: LittleEndian_PutUint64_def)

lemma cap_bound: "8 \<le> psz \<Longrightarrow> FREE_LIST_HEADER + 8 * FREE_LIST_CAP psz \<le> psz"
  by (simp add: FREE_LIST_CAP_def FREE_LIST_HEADER_def)

lemma slot_in_node:
  assumes "8 \<le> psz" and "idx < FREE_LIST_CAP psz"
  shows "FREE_LIST_HEADER + 8 * idx + 8 \<le> psz"
proof -
  from assms(2) have "8 * idx + 8 \<le> 8 * FREE_LIST_CAP psz" by simp
  with cap_bound [OF assms(1)] show ?thesis by simp
qed

lemma getNext_ok: "8 \<le> length node \<Longrightarrow> getNext node = Inr (nodeNext node)"
  by (simp add: getNext_def nodeNext_def)

lemma getPtr_ok:
  "length node = psz \<Longrightarrow> 8 \<le> psz \<Longrightarrow> idx < FREE_LIST_CAP psz \<Longrightarrow>
     getPtr node idx = Inr (nodeSlot node idx)"
  using slot_in_node [of psz idx] by (simp add: getPtr_def nodeSlot_def Let_def)

lemma setPtr_ok:
  "length node = psz \<Longrightarrow> 8 \<le> psz \<Longrightarrow> idx < FREE_LIST_CAP psz \<Longrightarrow>
     setPtr psz node idx ptr = Inr (putSlot node idx ptr)"
  using slot_in_node [of psz idx] by (simp add: setPtr_def putSlot_def Let_def)

lemma setNext_ok: "8 \<le> length node \<Longrightarrow> setNext node next = Inr (putNext node next)"
  by (simp add: setNext_def putNext_def)

lemma length_putSlot:
  "FREE_LIST_HEADER + 8 * idx + 8 \<le> length node \<Longrightarrow> length (putSlot node idx ptr) = length node"
  by (simp add: putSlot_def length_LE_PutUint64)

lemma length_putNext: "8 \<le> length node \<Longrightarrow> length (putNext node next) = length node"
  by (simp add: putNext_def length_LE_PutUint64)

lemma putSlot_nth:
  assumes "FREE_LIST_HEADER + 8 * idx + 8 \<le> length node" and "j < length node"
    and "j < FREE_LIST_HEADER + 8 * idx \<or> FREE_LIST_HEADER + 8 * idx + 8 \<le> j"
  shows "putSlot node idx ptr ! j = node ! j"
  using assms
  by (auto simp: putSlot_def LittleEndian_PutUint64_def nth_append)

lemma putNext_nth:
  assumes "8 \<le> length node" and "j < length node" and "8 \<le> j"
  shows "putNext node next ! j = node ! j"
  using assms
  by (auto simp: putNext_def LittleEndian_PutUint64_def nth_append)

lemma nodeSlot_putSlot_same:
  assumes "FREE_LIST_HEADER + 8 * idx + 8 \<le> length node"
  shows "nodeSlot (putSlot node idx ptr) idx = ptr"
proof -
  have "drop (FREE_LIST_HEADER + 8 * idx) (putSlot node idx ptr) =
        LittleEndian_PutUint64 (drop (FREE_LIST_HEADER + 8 * idx) node) ptr"
    using assms by (simp add: putSlot_def)
  then show ?thesis
    by (simp add: nodeSlot_def LittleEndian_Uint64_PutUint64)
qed

lemma nodeSlot_putSlot_other:
  assumes "FREE_LIST_HEADER + 8 * idx + 8 \<le> length node"
    and "FREE_LIST_HEADER + 8 * idx' + 8 \<le> length node" and "idx' \<noteq> idx"
  shows "nodeSlot (putSlot node idx ptr) idx' = nodeSlot node idx'"
  unfolding nodeSlot_def
proof (rule LittleEndian_Uint64_cong, intro allI impI)
  fix i :: nat
  assume i: "i < 8"
  from assms(3) have "idx' < idx \<or> idx < idx'" by auto
  with i have "FREE_LIST_HEADER + 8 * idx' + i < FREE_LIST_HEADER + 8 * idx \<or>
      FREE_LIST_HEADER + 8 * idx + 8 \<le> FREE_LIST_HEADER + 8 * idx' + i"
    by auto
  moreover from i assms(2) have "FREE_LIST_HEADER + 8 * idx' + i < length node" by simp
  ultimately have "putSlot node idx ptr ! (FREE_LIST_HEADER + 8 * idx' + i) =
      node ! (FREE_LIST_HEADER + 8 * idx' + i)"
    using assms(1) by (intro putSlot_nth) auto
  with i assms show "drop (FREE_LIST_HEADER + 8 * idx') (putSlot node idx ptr) ! i =
      drop (FREE_LIST_HEADER + 8 * idx') node ! i"
    by (simp add: length_putSlot)
qed

lemma nodeNext_putSlot:
  assumes "FREE_LIST_HEADER + 8 * idx + 8 \<le> length node"
  shows "nodeNext (putSlot node idx ptr) = nodeNext node"
  unfolding nodeNext_def
proof (rule LittleEndian_Uint64_cong, intro allI impI)
  fix i :: nat
  assume i: "i < 8"
  with assms have "putSlot node idx ptr ! i = node ! i"
    by (intro putSlot_nth) (auto simp: FREE_LIST_HEADER_def)
  with i assms show "take 8 (putSlot node idx ptr) ! i = take 8 node ! i"
    by simp
qed

lemma nodeNext_putNext: "8 \<le> length node \<Longrightarrow> nodeNext (putNext node next) = next"
  by (simp add: nodeNext_def putNext_def length_LE_PutUint64 LittleEndian_Uint64_PutUint64)

lemma nodeSlot_putNext:
  assumes "FREE_LIST_HEADER + 8 * idx + 8 \<le> length node"
  shows "nodeSlot (putNext node next) idx = nodeSlot node idx"
  unfolding nodeSlot_def
proof (rule LittleEndian_Uint64_cong, intro allI impI)
  fix i :: nat
  assume i: "i < 8"
  with assms have "putNext node next ! (FREE_LIST_HEADER + 8 * idx + i) =
      node ! (FREE_LIST_HEADER + 8 * idx + i)"
    by (intro putNext_nth) (auto simp: FREE_LIST_HEADER_def)
  with i assms show "drop (FREE_LIST_HEADER + 8 * idx) (putNext node next) ! i =
      drop (FREE_LIST_HEADER + 8 * idx) node ! i"
    by (simp add: length_putNext FREE_LIST_HEADER_def)
qed

subsection \<open>The counters\<close>

lemma unat_inc_u64: "unat x + 1 < 2 ^ 64 \<Longrightarrow> unat (x + 1) = unat x + 1" for x :: u64
  by (simp add: unat_word_ariths)

lemma flSet_fields:
  "flSet fl p w = Inr fl' \<Longrightarrow>
     headSeq fl' = headSeq fl \<and> maxSeq fl' = maxSeq fl \<and> tailSeq fl' = tailSeq fl \<and>
     headPage fl' = headPage fl \<and> tailPage fl' = tailPage fl"
  by (auto simp: flSet_def split: sum.splits)

lemma flNew_fields:
  "flNew fl node = (q, fl') \<Longrightarrow>
     headSeq fl' = headSeq fl \<and> maxSeq fl' = maxSeq fl \<and> tailSeq fl' = tailSeq fl \<and>
     headPage fl' = headPage fl \<and> tailPage fl' = tailPage fl"
  by (auto simp: flNew_def)

lemma flPop_counters:
  assumes "flPop psz fl = Inr (ptr, head, fl')" and "headSeq fl \<le> maxSeq fl"
  shows "headSeq fl' \<le> maxSeq fl' \<and> maxSeq fl' = maxSeq fl \<and> tailSeq fl' = tailSeq fl \<and>
         tailPage fl' = tailPage fl"
proof (cases "headSeq fl = maxSeq fl")
  case True
  with assms show ?thesis by (simp add: flPop_def)
next
  case False
  with assms(2) have "headSeq fl < maxSeq fl" by simp
  then have "headSeq fl + 1 \<le> maxSeq fl" by (rule inc_le)
  with assms(1) False show ?thesis
    by (auto simp: flPop_def Let_def split: sum.splits if_splits)
qed

lemma PushTail_counters:
  assumes "PushTail psz fl p = Inr fl'" and "seqOrdered fl" and "unat (tailSeq fl) + 2 < 2 ^ 64"
  shows "seqOrdered fl' \<and> unat (tailSeq fl') \<le> unat (tailSeq fl) + 2"
proof -
  from assms(1) obtain fl1 where
    s1: "flSet fl (tailPage fl) (\<lambda>node. setPtr psz node (seq2idx psz (tailSeq fl)) p) = Inr fl1"
    by (auto simp: PushTail_def split: sum.splits)
  note f1 = flSet_fields [OF s1]
  define fl2 where "fl2 = fl1\<lparr>tailSeq := tailSeq fl1 + 1\<rparr>"
  have t2: "unat (tailSeq fl2) = unat (tailSeq fl) + 1"
    using assms(3) f1 by (simp add: fl2_def unat_inc_u64)
  have o2: "headSeq fl2 \<le> maxSeq fl2" "maxSeq fl2 \<le> tailSeq fl2"
    using assms(2) f1 t2 by (auto simp: seqOrdered_def fl2_def word_le_nat_alt)
  show ?thesis
  proof (cases "seq2idx psz (tailSeq fl2) = 0")
    case False
    with assms(1) s1 have "fl' = fl2"
      by (simp add: PushTail_def fl2_def Let_def)
    with o2 t2 show ?thesis by (simp add: seqOrdered_def)
  next
    case True
    with assms(1) s1 obtain nxt head fl3 where
      p3: "flPop psz fl2 = Inr (nxt, head, fl3)"
      by (auto simp: PushTail_def fl2_def Let_def split: sum.splits)
    note f3 = flPop_counters [OF p3 o2(1)]
    obtain next' fl4 where
      n4: "(if nxt = 0 then flNew fl3 (replicate psz 0) else (nxt, fl3)) = (next', fl4)"
      by (cases "if nxt = 0 then flNew fl3 (replicate psz 0) else (nxt, fl3)")
    have f4: "headSeq fl4 = headSeq fl3 \<and> maxSeq fl4 = maxSeq fl3 \<and> tailSeq fl4 = tailSeq fl3"
      using n4 flNew_fields [of fl3 "replicate psz 0" next' fl4] by (auto split: if_splits)
    from assms(1) s1 True p3 n4 obtain fl5 where
      s5: "flSet fl4 (tailPage fl4) (\<lambda>node. setNext node next') = Inr fl5"
      by (auto simp: PushTail_def fl2_def [symmetric] Let_def split: sum.splits)
    note f5 = flSet_fields [OF s5]
    define fl6 where "fl6 = fl5\<lparr>tailPage := next'\<rparr>"
    have c6: "headSeq fl6 \<le> maxSeq fl6" "maxSeq fl6 \<le> tailSeq fl6"
      "unat (tailSeq fl6) = unat (tailSeq fl) + 1"
      using f3 f4 f5 o2 t2 by (auto simp: fl6_def)
    show ?thesis
    proof (cases "head = 0")
      case True
      with assms(1) s1 \<open>seq2idx psz (tailSeq fl2) = 0\<close> p3 n4 s5 have "fl' = fl6"
        by (simp add: PushTail_def fl2_def [symmetric] Let_def fl6_def)
      with c6 show ?thesis by (simp add: seqOrdered_def)
    next
      case False
      with assms(1) s1 \<open>seq2idx psz (tailSeq fl2) = 0\<close> p3 n4 s5 obtain fl7 where
        s7: "flSet fl6 (tailPage fl6) (\<lambda>node. setPtr psz node 0 head) = Inr fl7" and
        e: "fl' = fl7\<lparr>tailSeq := tailSeq fl7 + 1\<rparr>"
        by (auto simp: PushTail_def fl2_def [symmetric] Let_def fl6_def [symmetric] split: sum.splits)
      note f7 = flSet_fields [OF s7]
      have "unat (tailSeq fl') = unat (tailSeq fl) + 2"
        using assms(3) f7 c6 by (simp add: e unat_inc_u64)
      with c6 f7 show ?thesis
        by (auto simp: e seqOrdered_def word_le_nat_alt)
    qed
  qed
qed

lemma PopHead_counters:
  assumes "PopHead psz fl = Inr (ptr, fl')" and "seqOrdered fl" and "unat (tailSeq fl) + 2 < 2 ^ 64"
  shows "seqOrdered fl' \<and> unat (tailSeq fl') \<le> unat (tailSeq fl) + 2"
proof -
  from assms(1) obtain head fl1 where p: "flPop psz fl = Inr (ptr, head, fl1)"
    by (cases "flPop psz fl") (auto simp: PopHead_def split: sum.splits if_splits)
  from assms(2) have "headSeq fl \<le> maxSeq fl" by (simp add: seqOrdered_def)
  note f1 = flPop_counters [OF p this]
  with assms(2) have o1: "seqOrdered fl1" by (auto simp: seqOrdered_def)
  show ?thesis
  proof (cases "head = 0")
    case True
    with assms(1) p have "fl' = fl1" by (simp add: PopHead_def)
    with o1 f1 show ?thesis by auto
  next
    case False
    with assms(1) p have "PushTail psz fl1 head = Inr fl'"
      by (auto simp: PopHead_def split: sum.splits)
    from PushTail_counters [OF this o1] assms(3) f1 show ?thesis by auto
  qed
qed

lemma flRun_counters:
  assumes "flRun psz fl ops = Inr (fl', ptrs)" and "seqOrdered fl"
    and "unat (tailSeq fl) + 2 * length ops < 2 ^ 64"
  shows "seqOrdered fl' \<and> unat (tailSeq fl') \<le> unat (tailSeq fl) + 2 * length ops"
  using assms
proof (induction ops arbitrary: fl ptrs)
  case Nil
  then show ?case by simp
next
  case (Cons op ops)
  show ?case
  proof (cases op)
    case (Push p)
    with Cons.prems(1) obtain fl1 where
      1: "PushTail psz fl p = Inr fl1" and 2: "flRun psz fl1 ops = Inr (fl', ptrs)"
      by (auto split: sum.splits)
    from Cons.prems(3) have "unat (tailSeq fl) + 2 < 2 ^ 64" by simp
    from PushTail_counters [OF 1 Cons.prems(2) this] have
      o: "seqOrdered fl1" and t: "unat (tailSeq fl1) \<le> unat (tailSeq fl) + 2"
      by simp_all
    from t Cons.prems(3) have "unat (tailSeq fl1) + 2 * length ops < 2 ^ 64" by simp
    from Cons.IH [OF 2 o this] t show ?thesis by simp
  next
    case Pop
    with Cons.prems(1) obtain r fl1 rs where
      1: "PopHead psz fl = Inr (r, fl1)" and 2: "flRun psz fl1 ops = Inr (fl', rs)"
      by (auto split: sum.splits)
    from Cons.prems(3) have "unat (tailSeq fl) + 2 < 2 ^ 64" by simp
    from PopHead_counters [OF 1 Cons.prems(2) this] have
      o: "seqOrdered fl1" and t: "unat (tailSeq fl1) \<le> unat (tailSeq fl) + 2"
      by simp_all
    from t Cons.prems(3) have "unat (tailSeq fl1) + 2 * length ops < 2 ^ 64" by simp
    from Cons.IH [OF 2 o this] t show ?thesis by simp
  next
    case SetMax
    with Cons.prems(1) have 2: "flRun psz (SetMaxSeq fl) ops = Inr (fl', ptrs)" by simp
    from Cons.prems(2) have o: "seqOrdered (SetMaxSeq fl)"
      by (auto simp: seqOrdered_def SetMaxSeq_def)
    from Cons.prems(3) have "unat (tailSeq (SetMaxSeq fl)) + 2 * length ops < 2 ^ 64"
      by (simp add: SetMaxSeq_def)
    from Cons.IH [OF 2 o this] show ?thesis by (simp add: SetMaxSeq_def)
  qed
qed

subsection \<open>The list as a queue\<close>

lemma div_Suc_wrap: "Suc n mod c = 0 \<Longrightarrow> Suc n div c = Suc (n div c)"
  by (metis div_Suc)

lemma div_Suc_same: "Suc n mod c \<noteq> 0 \<Longrightarrow> Suc n div c = n div c"
  by (metis div_Suc)

lemma div_Suc_Suc_wrap: "2 \<le> c \<Longrightarrow> Suc n mod c = 0 \<Longrightarrow> Suc (Suc n) div c = Suc (n div c)"
proof -
  assume c: "2 \<le> c" and w: "Suc n mod c = 0"
  then have "Suc (Suc n) mod c = 1"
    by (metis One_nat_def Suc_1 Suc_le_lessD mod_Suc mod_less nat.simps(3))
  then have "Suc (Suc n) mod c \<noteq> 0" by simp
  then have "Suc (Suc n) div c = Suc n div c" by (rule div_Suc_same)
  with w show ?thesis by (simp add: div_Suc_wrap)
qed

lemma wrap_div_le:
  assumes "Suc h mod c = 0" and "Suc h \<le> t"
  shows "Suc (h div c) \<le> t div c"
proof -
  from assms(1) have "Suc h div c = Suc (h div c)" by (rule div_Suc_wrap)
  moreover from assms(2) have "Suc h div c \<le> t div c" by (rule div_le_mono)
  ultimately show ?thesis by simp
qed

lemma unat_of_nat_u64: "n < 2 ^ 64 \<Longrightarrow> unat (of_nat n :: u64) = n"
  by (simp add: unat_of_nat)

lemma viewOk_nonempty_nodes: "viewOk cap v \<Longrightarrow> vNodes v \<noteq> []"
  by (auto simp: viewOk_def)

lemma viewOk_pages_pos: "viewOk cap v \<Longrightarrow> 0 < vPages v"
proof -
  assume ok: "viewOk cap v"
  then have "vNodes v \<noteq> []" by (rule viewOk_nonempty_nodes)
  then obtain x where "x \<in> set (vNodes v)" by (cases "vNodes v") auto
  with ok have "unat x < vPages v" by (auto simp: viewOk_def)
  then show ?thesis by simp
qed

text \<open>The four outcomes of vPush.\<close>

lemma vPush_plain:
  "Suc (vTail v) mod cap \<noteq> 0 \<Longrightarrow>
     vPush cap v p = v\<lparr>vItems := vItems v @ [p], vTail := Suc (vTail v)\<rparr>"
  by (simp add: vPush_def Let_def)

lemma vPush_alloc:
  "Suc (vTail v) mod cap = 0 \<Longrightarrow> vHead v = vMax v \<Longrightarrow>
     vPush cap v p = v\<lparr>vItems := vItems v @ [p], vTail := Suc (vTail v),
       vPages := Suc (vPages v), vNodes := vNodes v @ [of_nat (vPages v)]\<rparr>"
  by (simp add: vPush_def vPop_def Let_def)

lemma vPush_steal:
  "Suc (vTail v) mod cap = 0 \<Longrightarrow> vHead v \<noteq> vMax v \<Longrightarrow> Suc (vHead v) mod cap \<noteq> 0 \<Longrightarrow>
   vItems v = x # xs \<Longrightarrow> x \<noteq> 0 \<Longrightarrow>
     vPush cap v p = v\<lparr>vItems := xs @ [p], vTail := Suc (vTail v), vHead := Suc (vHead v),
       vNodes := vNodes v @ [x]\<rparr>"
  by (simp add: vPush_def vPop_def Let_def)

lemma vPush_steal_recycle:
  "Suc (vTail v) mod cap = 0 \<Longrightarrow> vHead v \<noteq> vMax v \<Longrightarrow> Suc (vHead v) mod cap = 0 \<Longrightarrow>
   vItems v = x # xs \<Longrightarrow> x \<noteq> 0 \<Longrightarrow> vNodes v = c # cs \<Longrightarrow> c \<noteq> 0 \<Longrightarrow>
     vPush cap v p = v\<lparr>vItems := xs @ [p, c], vTail := Suc (Suc (vTail v)),
       vHead := Suc (vHead v), vNodes := cs @ [x]\<rparr>"
  by (simp add: vPush_def vPop_def Let_def)

lemma viewOk_items_nonempty:
  "viewOk cap v \<Longrightarrow> vHead v \<noteq> vMax v \<Longrightarrow> vItems v \<noteq> []"
  by (auto simp: viewOk_def)

lemma viewOk_vPush:
  assumes ok: "viewOk cap v" and fr: "vFree v p" and pg: "Suc (vPages v) < 2 ^ 64"
  shows "viewOk cap (vPush cap v p)"
proof (cases "Suc (vTail v) mod cap = 0")
  case False
  then have d: "Suc (vTail v) div cap = vTail v div cap" by (rule div_Suc_same)
  from ok fr d show ?thesis
    unfolding vPush_plain [OF False]
    by (auto simp: viewOk_def vFree_def Suc_diff_le)
next
  case wrap: True
  then have d: "Suc (vTail v) div cap = Suc (vTail v div cap)" by (rule div_Suc_wrap)
  from ok have c2: "2 \<le> cap" by (simp add: viewOk_def)
  from ok have le: "vHead v div cap \<le> vTail v div cap"
    by (auto simp: viewOk_def intro: div_le_mono)
  show ?thesis
  proof (cases "vHead v = vMax v")
    case True
    have n: "unat (of_nat (vPages v) :: u64) = vPages v"
      using pg by (simp add: unat_of_nat_u64)
    from viewOk_pages_pos [OF ok] n have nz: "(of_nat (vPages v) :: u64) \<noteq> 0"
      by (metis less_numeral_extra(3) unat_0)
    have new: "(of_nat (vPages v) :: u64) \<notin> set (vItems v)" "(of_nat (vPages v) :: u64) \<notin> set (vNodes v)"
      using ok n unfolding viewOk_def by fastforce+
    from ok fr d le n nz new pg show ?thesis
      unfolding vPush_alloc [OF wrap True]
      by (auto simp: viewOk_def vFree_def Suc_diff_le intro: less_SucI)
  next
    case False
    from viewOk_items_nonempty [OF ok False] obtain x xs where xs: "vItems v = x # xs"
      by (cases "vItems v") auto
    with ok have x0: "x \<noteq> 0" by (auto simp: viewOk_def)
    from ok False have lt: "Suc (vHead v) \<le> vTail v" by (auto simp: viewOk_def)
    show ?thesis
    proof (cases "Suc (vHead v) mod cap = 0")
      case nx: False
      then have dh: "Suc (vHead v) div cap = vHead v div cap" by (rule div_Suc_same)
      from ok fr d le xs x0 lt dh False show ?thesis
        unfolding vPush_steal [OF wrap False nx xs x0]
        by (auto simp: viewOk_def vFree_def Suc_diff_le)
    next
      case ex: True
      then have dh: "Suc (vHead v) div cap = Suc (vHead v div cap)" by (rule div_Suc_wrap)
      from wrap_div_le [OF ex lt] have l2: "Suc (vHead v div cap) \<le> vTail v div cap" .
      from viewOk_nonempty_nodes [OF ok] obtain c cs where cs: "vNodes v = c # cs"
        by (cases "vNodes v") auto
      with ok have c0: "c \<noteq> 0" by (auto simp: viewOk_def)
      have d2: "Suc (Suc (vTail v)) div cap = Suc (vTail v div cap)"
        using c2 wrap by (rule div_Suc_Suc_wrap)
      from ok fr d2 l2 xs x0 cs c0 lt dh False show ?thesis
        unfolding vPush_steal_recycle [OF wrap False ex xs x0 cs c0]
        by (auto simp: viewOk_def vFree_def Suc_diff_le)
    qed
  qed
qed

lemma vPush_cases [consumes 1, case_names plain alloc steal recycle]:
  assumes ok: "viewOk cap v"
  obtains
    (plain) "vPush cap v p = v\<lparr>vItems := vItems v @ [p], vTail := Suc (vTail v)\<rparr>"
  | (alloc) "vHead v = vMax v"
      "vPush cap v p = v\<lparr>vItems := vItems v @ [p], vTail := Suc (vTail v),
         vPages := Suc (vPages v), vNodes := vNodes v @ [of_nat (vPages v)]\<rparr>"
  | (steal) x xs where "vHead v < vMax v" "vItems v = x # xs"
      "vPush cap v p = v\<lparr>vItems := xs @ [p], vTail := Suc (vTail v), vHead := Suc (vHead v),
         vNodes := vNodes v @ [x]\<rparr>"
  | (recycle) x xs c cs where "vHead v < vMax v" "vItems v = x # xs" "vNodes v = c # cs"
      "vPush cap v p = v\<lparr>vItems := xs @ [p, c], vTail := Suc (Suc (vTail v)),
         vHead := Suc (vHead v), vNodes := cs @ [x]\<rparr>"
proof (cases "Suc (vTail v) mod cap = 0")
  case False
  from vPush_plain [OF False] show ?thesis by (rule plain)
next
  case wrap: True
  show ?thesis
  proof (cases "vHead v = vMax v")
    case True
    from True vPush_alloc [OF wrap True] show ?thesis by (rule alloc)
  next
    case False
    with ok have lt: "vHead v < vMax v" by (simp add: viewOk_def)
    from viewOk_items_nonempty [OF ok False] obtain x xs where xs: "vItems v = x # xs"
      by (cases "vItems v") auto
    with ok have x0: "x \<noteq> 0" by (auto simp: viewOk_def)
    show ?thesis
    proof (cases "Suc (vHead v) mod cap = 0")
      case nx: False
      from lt xs vPush_steal [OF wrap False nx xs x0] show ?thesis by (rule steal)
    next
      case ex: True
      from viewOk_nonempty_nodes [OF ok] obtain c cs where cs: "vNodes v = c # cs"
        by (cases "vNodes v") auto
      with ok have c0: "c \<noteq> 0" by (auto simp: viewOk_def)
      from lt xs cs vPush_steal_recycle [OF wrap False ex xs x0 cs c0] show ?thesis
        by (rule recycle)
    qed
  qed
qed

lemma drop_Suc_diff: "h < m \<Longrightarrow> drop (m - Suc h) xs = drop (m - h) (x # xs)"
  by (simp flip: Suc_diff_Suc)

lemma take_Suc_diff: "h < m \<Longrightarrow> x # take (m - Suc h) xs = take (m - h) (x # xs)"
  by (simp flip: Suc_diff_Suc)

lemma take_Suc_diff_set: "h < m \<Longrightarrow> set (take (m - Suc h) xs) \<subseteq> set (take (m - h) (x # xs))"
  unfolding take_Suc_diff [of h m x xs, symmetric] by auto

lemma take_Suc_diff_hd: "h < m \<Longrightarrow> x \<in> set (take (m - h) (x # xs))"
  unfolding take_Suc_diff [of h m x xs, symmetric] by simp

text \<open>What a push leaves as it was.\<close>

lemma vPush_frame:
  assumes ok: "viewOk cap v"
  shows "vMax (vPush cap v p) = vMax v"
    and "vPages v \<le> vPages (vPush cap v p)"
    and "vPages (vPush cap v p) \<le> Suc (vPages v)"
    and "vTail (vPush cap v p) \<le> vTail v + 2"
    and "set (vItems (vPush cap v p)) \<union> set (vNodes (vPush cap v p))
           \<subseteq> set (vItems v) \<union> set (vNodes v) \<union> {p, of_nat (vPages v)}"
    and "\<exists>ys. vLate (vPush cap v p) = vLate v @ p # ys"
    and "set (vEarly (vPush cap v p)) \<subseteq> set (vEarly v)"
proof -
  from ok have len: "vMax v - vHead v \<le> length (vItems v)"
    by (auto simp: viewOk_def)
  have "vMax (vPush cap v p) = vMax v \<and>
    vPages v \<le> vPages (vPush cap v p) \<and>
    vPages (vPush cap v p) \<le> Suc (vPages v) \<and>
    vTail (vPush cap v p) \<le> vTail v + 2 \<and>
    set (vItems (vPush cap v p)) \<union> set (vNodes (vPush cap v p))
           \<subseteq> set (vItems v) \<union> set (vNodes v) \<union> {p, of_nat (vPages v)} \<and>
    (\<exists>ys. vLate (vPush cap v p) = vLate v @ p # ys) \<and>
    set (vEarly (vPush cap v p)) \<subseteq> set (vEarly v)"
  using ok
  proof (cases rule: vPush_cases [where p = p])
    case plain
    with len show ?thesis by (auto simp: vLate_def vEarly_def)
  next
    case alloc
    with len show ?thesis by (auto simp: vLate_def vEarly_def)
  next
    case (steal x xs)
    from len steal(1,2) have l: "vMax v - Suc (vHead v) \<le> length xs" by simp
    from steal l take_Suc_diff_set [OF steal(1), of xs x] show ?thesis
      by (auto simp: vLate_def vEarly_def drop_Suc_diff [OF steal(1), of xs x])
  next
    case (recycle x xs c cs)
    from len recycle(1,2) have l: "vMax v - Suc (vHead v) \<le> length xs" by simp
    from recycle l take_Suc_diff_set [OF recycle(1), of xs x] show ?thesis
      by (auto simp: vLate_def vEarly_def drop_Suc_diff [OF recycle(1), of xs x])
  qed
  then show "vMax (vPush cap v p) = vMax v"
    and "vPages v \<le> vPages (vPush cap v p)"
    and "vPages (vPush cap v p) \<le> Suc (vPages v)"
    and "vTail (vPush cap v p) \<le> vTail v + 2"
    and "set (vItems (vPush cap v p)) \<union> set (vNodes (vPush cap v p))
           \<subseteq> set (vItems v) \<union> set (vNodes v) \<union> {p, of_nat (vPages v)}"
    and "\<exists>ys. vLate (vPush cap v p) = vLate v @ p # ys"
    and "set (vEarly (vPush cap v p)) \<subseteq> set (vEarly v)"
    by blast+
qed

text \<open>Taking one item at the head.\<close>

lemma vPop_cases [consumes 1, case_names empty item node]:
  assumes ok: "viewOk cap v"
  obtains
    (empty) "vHead v = vMax v" "vPop cap v = (0, 0, v)"
  | (item) x xs where "vHead v < vMax v" "vItems v = x # xs" "Suc (vHead v) mod cap \<noteq> 0"
      "vPop cap v = (x, 0, v\<lparr>vHead := Suc (vHead v), vItems := xs\<rparr>)"
  | (node) x xs c cs where "vHead v < vMax v" "vItems v = x # xs" "vNodes v = c # cs"
      "Suc (vHead v) mod cap = 0"
      "vPop cap v = (x, c, v\<lparr>vHead := Suc (vHead v), vItems := xs, vNodes := cs\<rparr>)"
proof (cases "vHead v = vMax v")
  case True
  then have "vPop cap v = (0, 0, v)" by (simp add: vPop_def)
  with True show ?thesis by (rule empty)
next
  case False
  with ok have lt: "vHead v < vMax v" by (simp add: viewOk_def)
  from viewOk_items_nonempty [OF ok False] obtain x xs where xs: "vItems v = x # xs"
    by (cases "vItems v") auto
  show ?thesis
  proof (cases "Suc (vHead v) mod cap = 0")
    case nx: False
    with False xs have "vPop cap v = (x, 0, v\<lparr>vHead := Suc (vHead v), vItems := xs\<rparr>)"
      by (simp add: vPop_def)
    with lt xs nx show ?thesis by (rule item)
  next
    case ex: True
    from viewOk_nonempty_nodes [OF ok] obtain c cs where cs: "vNodes v = c # cs"
      by (cases "vNodes v") auto
    with False ex xs
    have "vPop cap v = (x, c, v\<lparr>vHead := Suc (vHead v), vItems := xs, vNodes := cs\<rparr>)"
      by (simp add: vPop_def)
    with lt xs cs ex show ?thesis by (rule node)
  qed
qed

lemma viewOk_vPop_item:
  assumes ok: "viewOk cap v" and lt: "vHead v < vMax v" and xs: "vItems v = x # xs"
    and nx: "Suc (vHead v) mod cap \<noteq> 0"
  shows "viewOk cap (v\<lparr>vHead := Suc (vHead v), vItems := xs\<rparr>)"
proof -
  from nx have dh: "Suc (vHead v) div cap = vHead v div cap" by (rule div_Suc_same)
  from ok lt xs dh show ?thesis
    by (auto simp: viewOk_def)
qed

lemma viewOk_vPop_node:
  assumes ok: "viewOk cap v" and lt: "vHead v < vMax v" and xs: "vItems v = x # xs"
    and cs: "vNodes v = c # cs" and ex: "Suc (vHead v) mod cap = 0"
  shows "viewOk cap (v\<lparr>vHead := Suc (vHead v), vItems := xs, vNodes := cs\<rparr>)"
    and "vFree (v\<lparr>vHead := Suc (vHead v), vItems := xs, vNodes := cs\<rparr>) c"
proof -
  from ex have dh: "Suc (vHead v) div cap = Suc (vHead v div cap)" by (rule div_Suc_wrap)
  from ok lt have "Suc (vHead v) \<le> vTail v" by (simp add: viewOk_def)
  from wrap_div_le [OF ex this] have l2: "Suc (vHead v div cap) \<le> vTail v div cap" .
  from ok lt xs cs dh l2 show "viewOk cap (v\<lparr>vHead := Suc (vHead v), vItems := xs, vNodes := cs\<rparr>)"
    by (auto simp: viewOk_def)
  from ok xs cs show "vFree (v\<lparr>vHead := Suc (vHead v), vItems := xs, vNodes := cs\<rparr>) c"
    by (auto simp: viewOk_def vFree_def)
qed

lemma vPopHead_cases [consumes 1, case_names empty item node]:
  assumes ok: "viewOk cap v"
  obtains
    (empty) "vHead v = vMax v" "vPopHead cap v = (0, v)"
  | (item) x xs where "vHead v < vMax v" "vItems v = x # xs" "Suc (vHead v) mod cap \<noteq> 0"
      "vPopHead cap v = (x, v\<lparr>vHead := Suc (vHead v), vItems := xs\<rparr>)"
      "viewOk cap (v\<lparr>vHead := Suc (vHead v), vItems := xs\<rparr>)"
  | (node) x xs c cs where "vHead v < vMax v" "vItems v = x # xs" "vNodes v = c # cs"
      "Suc (vHead v) mod cap = 0"
      "vPopHead cap v = (x, vPush cap (v\<lparr>vHead := Suc (vHead v), vItems := xs, vNodes := cs\<rparr>) c)"
      "viewOk cap (v\<lparr>vHead := Suc (vHead v), vItems := xs, vNodes := cs\<rparr>)"
      "vFree (v\<lparr>vHead := Suc (vHead v), vItems := xs, vNodes := cs\<rparr>) c"
  using ok
proof (cases rule: vPop_cases)
  case empty
  then have "vPopHead cap v = (0, v)" by (simp add: vPopHead_def)
  with empty(1) show ?thesis by (rule that(1))
next
  case (item x xs)
  then have "vPopHead cap v = (x, v\<lparr>vHead := Suc (vHead v), vItems := xs\<rparr>)"
    by (simp add: vPopHead_def)
  with item(1-3) show ?thesis
    using viewOk_vPop_item [OF ok item(1-3)] by (rule that(2))
next
  case (node x xs c cs)
  from ok node(3) have "c \<noteq> 0" by (auto simp: viewOk_def)
  with node
  have "vPopHead cap v = (x, vPush cap (v\<lparr>vHead := Suc (vHead v), vItems := xs, vNodes := cs\<rparr>) c)"
    by (simp add: vPopHead_def)
  with node(1-4) show ?thesis
    using viewOk_vPop_node [OF ok node(1-4)] by (rule that(3))
qed

lemma viewOk_vPopHead:
  assumes ok: "viewOk cap v" and pg: "Suc (vPages v) < 2 ^ 64"
  shows "viewOk cap (snd (vPopHead cap v))"
  using ok
proof (cases rule: vPopHead_cases)
  case empty
  with ok show ?thesis by simp
next
  case (item x xs)
  then show ?thesis by simp
next
  case (node x xs c cs)
  from viewOk_vPush [OF node(6,7)] pg node(5) show ?thesis by simp
qed

lemma vPopHead_frame:
  assumes ok: "viewOk cap v"
  shows "vMax (snd (vPopHead cap v)) = vMax v"
    and "vPages v \<le> vPages (snd (vPopHead cap v))"
    and "vPages (snd (vPopHead cap v)) \<le> Suc (vPages v)"
    and "vTail (snd (vPopHead cap v)) \<le> vTail v + 2"
    and "set (vItems (snd (vPopHead cap v))) \<union> set (vNodes (snd (vPopHead cap v)))
           \<subseteq> set (vItems v) \<union> set (vNodes v) \<union> {of_nat (vPages v)}"
    and "\<exists>ys. vLate (snd (vPopHead cap v)) = vLate v @ ys"
    and "set (vEarly (snd (vPopHead cap v))) \<subseteq> set (vEarly v)"
    and "fst (vPopHead cap v) = 0 \<or> fst (vPopHead cap v) \<in> set (vEarly v)"
    and "vHead v \<noteq> vMax v \<Longrightarrow> fst (vPopHead cap v) = hd (vItems v)"
proof -
  have "vMax (snd (vPopHead cap v)) = vMax v \<and>
    vPages v \<le> vPages (snd (vPopHead cap v)) \<and>
    vPages (snd (vPopHead cap v)) \<le> Suc (vPages v) \<and>
    vTail (snd (vPopHead cap v)) \<le> vTail v + 2 \<and>
    set (vItems (snd (vPopHead cap v))) \<union> set (vNodes (snd (vPopHead cap v)))
           \<subseteq> set (vItems v) \<union> set (vNodes v) \<union> {of_nat (vPages v)} \<and>
    (\<exists>ys. vLate (snd (vPopHead cap v)) = vLate v @ ys) \<and>
    set (vEarly (snd (vPopHead cap v))) \<subseteq> set (vEarly v) \<and>
    (fst (vPopHead cap v) = 0 \<or> fst (vPopHead cap v) \<in> set (vEarly v)) \<and>
    (vHead v \<noteq> vMax v \<longrightarrow> fst (vPopHead cap v) = hd (vItems v))"
  using ok
  proof (cases rule: vPopHead_cases)
    case empty
    then show ?thesis by auto
  next
    case (item x xs)
    from item take_Suc_diff_set [OF item(1), of xs x] take_Suc_diff_hd [OF item(1), of x xs]
    show ?thesis
      by (auto simp: vLate_def vEarly_def drop_Suc_diff [OF item(1), of xs x])
  next
    case (node x xs c cs)
    let ?v1 = "v\<lparr>vHead := Suc (vHead v), vItems := xs, vNodes := cs\<rparr>"
    have l1: "vLate ?v1 = vLate v"
      using node(2) by (simp add: vLate_def drop_Suc_diff [OF node(1), of xs x])
    have e1: "set (vEarly ?v1) \<subseteq> set (vEarly v)"
      using node(2) take_Suc_diff_set [OF node(1), of xs x] by (simp add: vEarly_def)
    have xin: "x \<in> set (vEarly v)"
      using node(2) take_Suc_diff_hd [OF node(1), of x xs] by (simp add: vEarly_def)
    have hd: "hd (vItems v) = x" using node(2) by simp
    have st: "set (vItems ?v1) \<union> set (vNodes ?v1) \<subseteq> set (vItems v) \<union> set (vNodes v)"
      using node(2,3) by auto
    note f = vPush_frame [OF node(6), of c]
    have c: "c \<in> set (vNodes v)" using node(3) by simp
    from f(1) have 1: "vMax (vPush cap ?v1 c) = vMax v" by simp
    from f(2) have 2: "vPages v \<le> vPages (vPush cap ?v1 c)" by simp
    from f(3) have 3: "vPages (vPush cap ?v1 c) \<le> Suc (vPages v)" by simp
    from f(4) have 4: "vTail (vPush cap ?v1 c) \<le> vTail v + 2" by simp
    from f(5) st c have 5: "set (vItems (vPush cap ?v1 c)) \<union> set (vNodes (vPush cap ?v1 c))
        \<subseteq> set (vItems v) \<union> set (vNodes v) \<union> {of_nat (vPages v)}"
      by auto
    from f(6) l1 have 6: "\<exists>ys. vLate (vPush cap ?v1 c) = vLate v @ ys" by auto
    from f(7) e1 have 7: "set (vEarly (vPush cap ?v1 c)) \<subseteq> set (vEarly v)" by blast
    from 1 2 3 4 5 6 7 xin hd node(1) show ?thesis
      unfolding node(5) fst_conv snd_conv by blast
  qed
  then show "vMax (snd (vPopHead cap v)) = vMax v"
    and "vPages v \<le> vPages (snd (vPopHead cap v))"
    and "vPages (snd (vPopHead cap v)) \<le> Suc (vPages v)"
    and "vTail (snd (vPopHead cap v)) \<le> vTail v + 2"
    and "set (vItems (snd (vPopHead cap v))) \<union> set (vNodes (snd (vPopHead cap v)))
           \<subseteq> set (vItems v) \<union> set (vNodes v) \<union> {of_nat (vPages v)}"
    and "\<exists>ys. vLate (snd (vPopHead cap v)) = vLate v @ ys"
    and "set (vEarly (snd (vPopHead cap v))) \<subseteq> set (vEarly v)"
    and "fst (vPopHead cap v) = 0 \<or> fst (vPopHead cap v) \<in> set (vEarly v)"
    and "vHead v \<noteq> vMax v \<Longrightarrow> fst (vPopHead cap v) = hd (vItems v)"
    by blast+
qed

subsection \<open>The list matches its view\<close>

lemma unat_Suc_u64: "unat x + 1 < 2 ^ 64 \<Longrightarrow> unat (x + 1) = Suc (unat x)" for x :: u64
  by (simp add: unat_word_ariths)

lemma psz_of_cap: "2 \<le> FREE_LIST_CAP psz \<Longrightarrow> 8 \<le> psz"
  by (simp add: FREE_LIST_CAP_def FREE_LIST_HEADER_def)

lemma set_update_pages:
  "\<forall>pg\<in>set ps. length pg = psz \<Longrightarrow> length x = psz \<Longrightarrow> \<forall>pg\<in>set (ps[k := x]). length pg = psz"
  by (metis insertE set_update_subset_insert subsetD)

text \<open>Writing a slot that holds no item of the list.\<close>

lemma flSet_slot:
  assumes abs: "flAbs psz fl v" and c2: "2 \<le> FREE_LIST_CAP psz"
    and dist: "distinct (vNodes v)"
    and k: "k < length (vNodes v)" and idx: "idx < FREE_LIST_CAP psz"
    and free: "\<forall>s. vHead v \<le> s \<and> s < vTail v \<longrightarrow>
        \<not> (s div FREE_LIST_CAP psz - vHead v div FREE_LIST_CAP psz = k \<and> s mod FREE_LIST_CAP psz = idx)"
  shows "\<exists>fl1. flSet fl (vNodes v ! k) (\<lambda>node. setPtr psz node idx q) = Inr fl1 \<and>
           flAbs psz fl1 v \<and> nodeSlot (pages fl1 ! unat (vNodes v ! k)) idx = q \<and>
           headSeq fl1 = headSeq fl \<and> tailSeq fl1 = tailSeq fl"
proof -
  let ?cap = "FREE_LIST_CAP psz"
  let ?tp = "vNodes v ! k"
  let ?node = "pages fl ! unat ?tp"
  let ?ps = "(pages fl)[unat ?tp := putSlot ?node idx q]"
  let ?fl1 = "fl\<lparr>pages := ?ps\<rparr>"
  from c2 have p8: "8 \<le> psz" by (rule psz_of_cap)
  from abs k have valid: "unat ?tp < length (pages fl)"
    by (auto simp: flAbs_def)
  with abs have len: "length ?node = psz"
    by (auto simp: flAbs_def)
  from slot_in_node [OF p8 idx] len have fit: "FREE_LIST_HEADER + 8 * idx + 8 \<le> length ?node"
    by simp
  have set: "flSet fl ?tp (\<lambda>node. setPtr psz node idx q) = Inr ?fl1"
    using valid by (simp add: flSet_def flGet_def setPtr_ok [OF len p8 idx])
  have other: "?ps ! unat (vNodes v ! i) = pages fl ! unat (vNodes v ! i)"
    if "i < length (vNodes v)" "i \<noteq> k" for i
  proof -
    from that k dist have "vNodes v ! i \<noteq> ?tp"
      by (simp add: nth_eq_iff_index_eq)
    then have "unat (vNodes v ! i) \<noteq> unat ?tp"
      by (simp add: word_unat_eq_iff)
    then show ?thesis by simp
  qed
  have same: "?ps ! unat ?tp = putSlot ?node idx q"
    using valid by simp
  have links: "nodeNext (?ps ! unat (vNodes v ! i)) = vNodes v ! Suc i"
    if "Suc i < length (vNodes v)" for i
  proof (cases "i = k")
    case True
    with that abs show ?thesis
      by (simp add: same nodeNext_putSlot [OF fit] flAbs_def)
  next
    case False
    with that abs other [of i] show ?thesis
      by (simp add: flAbs_def)
  qed
  have slots: "nodeSlot (?ps ! unat (vNodes v ! (s div ?cap - vHead v div ?cap))) (s mod ?cap)
      = vItems v ! (s - vHead v)"
    if s: "vHead v \<le> s" "s < vTail v" for s
  proof -
    from abs s have old: "nodeSlot (pages fl ! unat (vNodes v ! (s div ?cap - vHead v div ?cap))) (s mod ?cap)
        = vItems v ! (s - vHead v)"
      and rng: "s div ?cap - vHead v div ?cap < length (vNodes v)"
      by (simp_all add: flAbs_def)
    show ?thesis
    proof (cases "s div ?cap - vHead v div ?cap = k")
      case True
      with free s have ne: "s mod ?cap \<noteq> idx" by blast
      from c2 have "s mod ?cap < ?cap" by simp
      from slot_in_node [OF p8 this] len
      have "FREE_LIST_HEADER + 8 * (s mod ?cap) + 8 \<le> length ?node" by simp
      from nodeSlot_putSlot_other [OF fit this ne, of q] old show ?thesis
        unfolding True same by simp
    next
      case False
      from other [OF rng False] old show ?thesis
        by simp
    qed
  qed
  have lens: "\<forall>pg\<in>set ?ps. length pg = psz"
  proof (rule set_update_pages)
    from abs show "\<forall>pg\<in>set (pages fl). length pg = psz"
      by (simp add: flAbs_def)
    from len fit show "length (putSlot ?node idx q) = psz"
      by (simp add: length_putSlot)
  qed
  have "flAbs psz ?fl1 v"
    unfolding flAbs_def
    using abs links slots lens by (simp add: flAbs_def)
  moreover have "nodeSlot (pages ?fl1 ! unat ?tp) idx = q"
    by (simp add: same nodeSlot_putSlot_same [OF fit])
  ultimately show ?thesis using set by simp
qed

text \<open>Taking the slot after the last item into the list.\<close>

lemma flAbs_extend:
  assumes abs: "flAbs psz fl v"
    and k: "vTail v div FREE_LIST_CAP psz - vHead v div FREE_LIST_CAP psz < length (vNodes v)"
    and slot: "nodeSlot (pages fl ! unat (vNodes v ! (vTail v div FREE_LIST_CAP psz - vHead v div FREE_LIST_CAP psz)))
        (vTail v mod FREE_LIST_CAP psz) = q"
    and le: "vHead v \<le> vTail v" and bound: "vTail v + 1 < 2 ^ 64"
  shows "flAbs psz (fl\<lparr>tailSeq := tailSeq fl + 1\<rparr>) (v\<lparr>vItems := vItems v @ [q], vTail := Suc (vTail v)\<rparr>)"
proof -
  from abs bound have t: "unat (tailSeq fl + 1) = Suc (vTail v)"
    by (simp add: flAbs_def unat_Suc_u64)
  have "nodeSlot (pages fl ! unat (vNodes v ! (s div FREE_LIST_CAP psz - vHead v div FREE_LIST_CAP psz)))
          (s mod FREE_LIST_CAP psz) = (vItems v @ [q]) ! (s - vHead v) \<and>
        s div FREE_LIST_CAP psz - vHead v div FREE_LIST_CAP psz < length (vNodes v)"
    if s: "vHead v \<le> s" "s < Suc (vTail v)" for s
  proof (cases "s = vTail v")
    case True
    with abs k slot le show ?thesis
      by (simp add: flAbs_def nth_append)
  next
    case False
    with s have lt: "s < vTail v" by simp
    with s have "s - vHead v < vTail v - vHead v" by arith
    with abs s lt show ?thesis
      by (simp add: flAbs_def nth_append)
  qed
  with abs t le show ?thesis
    by (simp add: flAbs_def Suc_diff_le)
qed

lemma flAbs_head_valid:
  assumes abs: "flAbs psz fl v" and k: "k < length (vNodes v)"
  shows "unat (vNodes v ! k) < length (pages fl)" "length (pages fl ! unat (vNodes v ! k)) = psz"
proof -
  from abs k show v: "unat (vNodes v ! k) < length (pages fl)"
    by (auto simp: flAbs_def)
  with abs show "length (pages fl ! unat (vNodes v ! k)) = psz"
    by (auto simp: flAbs_def)
qed

text \<open>\<^verbatim>\<open>flPop\<close> on a list that matches a view.\<close>

lemma flPop_sim:
  assumes abs: "flAbs psz fl v" and c2: "2 \<le> FREE_LIST_CAP psz"
    and ne: "vHead v \<noteq> vMax v \<longrightarrow> vHead v < vTail v"
    and ex: "vHead v \<noteq> vMax v \<and> Suc (vHead v) mod FREE_LIST_CAP psz = 0 \<longrightarrow>
               2 \<le> length (vNodes v) \<and> vNodes v ! 1 \<noteq> 0"
  shows "\<exists>fl'. flPop psz fl = Inr (fst (vPop (FREE_LIST_CAP psz) v), fst (snd (vPop (FREE_LIST_CAP psz) v)), fl') \<and>
           flAbs psz fl' (snd (snd (vPop (FREE_LIST_CAP psz) v))) \<and>
           tailSeq fl' = tailSeq fl \<and> tailPage fl' = tailPage fl \<and> pages fl' = pages fl"
proof (cases "vHead v = vMax v")
  case True
  with abs have "headSeq fl = maxSeq fl"
    by (simp add: flAbs_def word_unat_eq_iff)
  with True abs show ?thesis
    by (simp add: flPop_def vPop_def)
next
  case False
  let ?cap = "FREE_LIST_CAP psz"
  from c2 have p8: "8 \<le> psz" by (rule psz_of_cap)
  from False abs have hm: "headSeq fl \<noteq> maxSeq fl"
    by (auto simp: flAbs_def word_unat_eq_iff)
  from False ne have lt: "vHead v < vTail v" by simp
  from abs have hs: "unat (headSeq fl) = vHead v" and ts: "unat (tailSeq fl) = vTail v"
    and li: "length (vItems v) = vTail v - vHead v" and nn: "vNodes v \<noteq> []"
    and hp: "headPage fl = hd (vNodes v)"
    by (simp_all add: flAbs_def)
  have "unat (tailSeq fl) < 2 ^ 64" using unsigned_less [of "tailSeq fl"] by simp
  with ts lt have "unat (headSeq fl) + 1 < 2 ^ 64" using hs by simp
  then have hs': "unat (headSeq fl + 1) = Suc (vHead v)"
    using hs by (simp add: unat_Suc_u64)
  from nn obtain c cs where nodes: "vNodes v = c # cs" by (cases "vNodes v") auto
  from li lt obtain x xs where items: "vItems v = x # xs" by (cases "vItems v") auto
  from nodes have k0: "0 < length (vNodes v)" by simp
  from flAbs_head_valid [OF abs k0] nodes
  have valid: "unat c < length (pages fl)" and len: "length (pages fl ! unat c) = psz"
    by simp_all
  let ?node = "pages fl ! unat c"
  have slots_old: "s div ?cap - vHead v div ?cap < length (vNodes v) \<and>
      nodeSlot (pages fl ! unat (vNodes v ! (s div ?cap - vHead v div ?cap))) (s mod ?cap)
        = vItems v ! (s - vHead v)"
    if "vHead v \<le> s" "s < vTail v" for s
    using abs that by (simp add: flAbs_def)
  from slots_old [of "vHead v"] lt nodes items
  have slot0: "nodeSlot ?node (vHead v mod ?cap) = x" by simp
  from c2 have "vHead v mod ?cap < ?cap" by simp
  from getPtr_ok [OF len p8 this] slot0
  have gp: "getPtr ?node (vHead v mod ?cap) = Inr x" by simp
  have get: "flGet fl (headPage fl) = Inr ?node"
    using valid hp nodes by (simp add: flGet_def)
  have items_shift: "xs ! (s - Suc (vHead v)) = vItems v ! (s - vHead v)"
    if "Suc (vHead v) \<le> s" for s
  proof -
    from that have "s - vHead v = Suc (s - Suc (vHead v))" by arith
    then show ?thesis by (simp add: items)
  qed
  from li items have lx: "length xs = vTail v - Suc (vHead v)" by simp
  show ?thesis
  proof (cases "Suc (vHead v) mod ?cap = 0")
    case wrap: True
    with ex False have l2: "2 \<le> length (vNodes v)" and n1: "vNodes v ! 1 \<noteq> 0" by simp_all
    from l2 nodes obtain c' cs' where cs: "cs = c' # cs'" by (cases cs) auto
    from abs l2 have "nodeNext (pages fl ! unat (vNodes v ! 0)) = vNodes v ! Suc 0"
      by (simp add: flAbs_def)
    with nodes cs have nx: "nodeNext ?node = c'" by simp
    from n1 nodes cs have c'0: "c' \<noteq> 0" by simp
    from len p8 have gn: "getNext ?node = Inr c'"
      using nx by (simp add: getNext_ok)
    let ?fl' = "fl\<lparr>headSeq := headSeq fl + 1, headPage := c'\<rparr>"
    let ?v' = "v\<lparr>vHead := Suc (vHead v), vItems := xs, vNodes := cs\<rparr>"
    have pop: "flPop psz fl = Inr (x, c, ?fl')"
      using hm get gp gn c'0 wrap hs hs' hp nodes
      by (simp add: flPop_def seq2idx_def Let_def)
    have vpop: "vPop ?cap v = (x, c, ?v')"
      using False wrap nodes items by (simp add: vPop_def)
    from wrap have dw: "Suc (vHead v) div ?cap = Suc (vHead v div ?cap)" by (rule div_Suc_wrap)
    have slots: "s div ?cap - Suc (vHead v) div ?cap < length cs \<and>
        nodeSlot (pages fl ! unat (cs ! (s div ?cap - Suc (vHead v) div ?cap))) (s mod ?cap)
          = xs ! (s - Suc (vHead v))"
      if s: "Suc (vHead v) \<le> s" "s < vTail v" for s
    proof -
      from s have s0: "vHead v \<le> s" by simp
      from wrap_div_le [OF wrap s(1)] have "Suc (vHead v div ?cap) \<le> s div ?cap" .
      then have j: "s div ?cap - vHead v div ?cap = Suc (s div ?cap - Suc (vHead v div ?cap))"
        by arith
      from slots_old [OF s0 s(2)] items_shift [OF s(1)] show ?thesis
        unfolding dw j nodes by simp
    qed
    have links: "nodeNext (pages fl ! unat (cs ! i)) = cs ! Suc i" if "Suc i < length cs" for i
    proof -
      from that nodes have "Suc (Suc i) < length (vNodes v)" by simp
      with abs have "nodeNext (pages fl ! unat (vNodes v ! Suc i)) = vNodes v ! Suc (Suc i)"
        by (simp add: flAbs_def)
      with nodes show ?thesis by simp
    qed
    have "flAbs psz ?fl' ?v'"
      unfolding flAbs_def
      using abs hs' lx nodes cs links slots
      by (simp add: flAbs_def)
    with pop vpop show ?thesis by simp
  next
    case nowrap: False
    let ?fl' = "fl\<lparr>headSeq := headSeq fl + 1\<rparr>"
    let ?v' = "v\<lparr>vHead := Suc (vHead v), vItems := xs\<rparr>"
    have pop: "flPop psz fl = Inr (x, 0, ?fl')"
      using hm get gp nowrap hs hs'
      by (simp add: flPop_def seq2idx_def Let_def)
    have vpop: "vPop ?cap v = (x, 0, ?v')"
      using False nowrap items by (simp add: vPop_def)
    from nowrap have dw: "Suc (vHead v) div ?cap = vHead v div ?cap" by (rule div_Suc_same)
    have slots: "s div ?cap - Suc (vHead v) div ?cap < length (vNodes v) \<and>
        nodeSlot (pages fl ! unat (vNodes v ! (s div ?cap - Suc (vHead v) div ?cap))) (s mod ?cap)
          = xs ! (s - Suc (vHead v))"
      if s: "Suc (vHead v) \<le> s" "s < vTail v" for s
    proof -
      from s have s0: "vHead v \<le> s" by simp
      from slots_old [OF s0 s(2)] items_shift [OF s(1)] show ?thesis
        unfolding dw by simp
    qed
    have "flAbs psz ?fl' ?v'"
      unfolding flAbs_def
      using abs hs' lx slots
      by (simp add: flAbs_def)
    with pop vpop show ?thesis by simp
  qed
qed

text \<open>\<^verbatim>\<open>fl.new\<close> appends a page.\<close>

lemma flNew_sim:
  assumes abs: "flAbs psz fl v"
  shows "flAbs psz (snd (flNew fl (replicate psz 0))) (v\<lparr>vPages := Suc (vPages v)\<rparr>)"
    and "fst (flNew fl (replicate psz 0)) = of_nat (vPages v)"
proof -
  have nth: "(pages fl @ [replicate psz 0]) ! unat (vNodes v ! i) = pages fl ! unat (vNodes v ! i)"
    if "i < length (vNodes v)" for i
    using flAbs_head_valid(1) [OF abs that] by (simp add: nth_append)
  have links: "nodeNext ((pages fl @ [replicate psz 0]) ! unat (vNodes v ! i)) = vNodes v ! Suc i"
    if "Suc i < length (vNodes v)" for i
  proof -
    from that have "i < length (vNodes v)" by simp
    from nth [OF this] abs that show ?thesis by (simp add: flAbs_def)
  qed
  have slots: "s div FREE_LIST_CAP psz - vHead v div FREE_LIST_CAP psz < length (vNodes v) \<and>
      nodeSlot ((pages fl @ [replicate psz 0]) !
          unat (vNodes v ! (s div FREE_LIST_CAP psz - vHead v div FREE_LIST_CAP psz)))
        (s mod FREE_LIST_CAP psz) = vItems v ! (s - vHead v)"
    if s: "vHead v \<le> s" "s < vTail v" for s
  proof -
    from abs s have old: "s div FREE_LIST_CAP psz - vHead v div FREE_LIST_CAP psz < length (vNodes v)"
      "nodeSlot (pages fl ! unat (vNodes v ! (s div FREE_LIST_CAP psz - vHead v div FREE_LIST_CAP psz)))
        (s mod FREE_LIST_CAP psz) = vItems v ! (s - vHead v)"
      by (simp_all add: flAbs_def)
    from nth [OF old(1)] old show ?thesis by simp
  qed
  have valid: "\<forall>x\<in>set (vNodes v). unat x < Suc (vPages v)"
    using abs by (auto simp: flAbs_def intro: less_SucI)
  show "flAbs psz (snd (flNew fl (replicate psz 0))) (v\<lparr>vPages := Suc (vPages v)\<rparr>)"
    unfolding flAbs_def
    using abs links slots valid by (simp add: flNew_def flAbs_def)
  from abs show "fst (flNew fl (replicate psz 0)) = of_nat (vPages v)"
    by (simp add: flNew_def flAbs_def)
qed

text \<open>Linking a new tail node behind the last node.\<close>

lemma flSet_next:
  assumes abs: "flAbs psz fl v" and c2: "2 \<le> FREE_LIST_CAP psz"
    and dist: "distinct (vNodes v)" and nx: "unat nx < vPages v"
  shows "\<exists>fl1. flSet fl (tailPage fl) (\<lambda>node. setNext node nx) = Inr fl1 \<and>
           flAbs psz (fl1\<lparr>tailPage := nx\<rparr>) (v\<lparr>vNodes := vNodes v @ [nx]\<rparr>) \<and>
           headSeq fl1 = headSeq fl \<and> tailSeq fl1 = tailSeq fl"
proof -
  let ?cap = "FREE_LIST_CAP psz"
  define k where "k = length (vNodes v) - 1"
  let ?tp = "vNodes v ! k"
  let ?node = "pages fl ! unat ?tp"
  let ?ps = "(pages fl)[unat ?tp := putNext ?node nx]"
  let ?fl1 = "fl\<lparr>pages := ?ps\<rparr>"
  from c2 have p8: "8 \<le> psz" by (rule psz_of_cap)
  from abs have nn: "vNodes v \<noteq> []" by (simp add: flAbs_def)
  then have k: "k < length (vNodes v)" by (simp add: k_def)
  from abs nn have tp: "tailPage fl = ?tp" by (simp add: flAbs_def last_conv_nth k_def)
  from flAbs_head_valid [OF abs k]
  have valid: "unat ?tp < length (pages fl)" and len: "length ?node = psz" by simp_all
  from len p8 have l8: "8 \<le> length ?node" by simp
  have set: "flSet fl (tailPage fl) (\<lambda>node. setNext node nx) = Inr ?fl1"
    using valid tp by (simp add: flSet_def flGet_def setNext_ok [OF l8])
  have other: "?ps ! unat (vNodes v ! i) = pages fl ! unat (vNodes v ! i)"
    if "i < length (vNodes v)" "i \<noteq> k" for i
  proof -
    from that k dist have "vNodes v ! i \<noteq> ?tp"
      by (simp add: nth_eq_iff_index_eq)
    then have "unat (vNodes v ! i) \<noteq> unat ?tp"
      by (simp add: word_unat_eq_iff)
    then show ?thesis by simp
  qed
  have same: "?ps ! unat ?tp = putNext ?node nx"
    using valid by simp
  have links: "nodeNext (?ps ! unat ((vNodes v @ [nx]) ! i)) = (vNodes v @ [nx]) ! Suc i"
    if i: "Suc i < length (vNodes v @ [nx])" for i
  proof (cases "i = k")
    case True
    with nn have "Suc i = length (vNodes v)" by (simp add: k_def)
    then have "(vNodes v @ [nx]) ! Suc i = nx" by (simp add: nth_append)
    moreover from True k have "(vNodes v @ [nx]) ! i = ?tp" by (simp add: nth_append)
    ultimately show ?thesis
      by (simp only: same nodeNext_putNext [OF l8])
  next
    case False
    with i have i': "Suc i < length (vNodes v)" by (simp add: k_def)
    then have il: "i < length (vNodes v)" by simp
    from i' abs have "nodeNext (pages fl ! unat (vNodes v ! i)) = vNodes v ! Suc i"
      by (simp add: flAbs_def)
    with other [OF il False] i' il show ?thesis
      by (simp add: nth_append)
  qed
  have slots: "s div ?cap - vHead v div ?cap < length (vNodes v @ [nx]) \<and>
      nodeSlot (?ps ! unat ((vNodes v @ [nx]) ! (s div ?cap - vHead v div ?cap))) (s mod ?cap)
        = vItems v ! (s - vHead v)"
    if s: "vHead v \<le> s" "s < vTail v" for s
  proof -
    let ?j = "s div ?cap - vHead v div ?cap"
    from abs s have old: "nodeSlot (pages fl ! unat (vNodes v ! ?j)) (s mod ?cap)
        = vItems v ! (s - vHead v)"
      and rng: "?j < length (vNodes v)"
      by (simp_all add: flAbs_def)
    have "nodeSlot (?ps ! unat (vNodes v ! ?j)) (s mod ?cap) = vItems v ! (s - vHead v)"
    proof (cases "?j = k")
      case True
      from c2 have "s mod ?cap < ?cap" by simp
      from slot_in_node [OF p8 this] len
      have "FREE_LIST_HEADER + 8 * (s mod ?cap) + 8 \<le> length ?node" by simp
      from nodeSlot_putNext [OF this, of nx] old show ?thesis
        unfolding True same by simp
    next
      case False
      from other [OF rng False] old show ?thesis by simp
    qed
    with rng show ?thesis by (simp add: nth_append)
  qed
  have lens: "\<forall>pg\<in>set ?ps. length pg = psz"
  proof (rule set_update_pages)
    from abs show "\<forall>pg\<in>set (pages fl). length pg = psz"
      by (simp add: flAbs_def)
    from len l8 show "length (putNext ?node nx) = psz"
      by (simp add: length_putNext)
  qed
  have "flAbs psz (?fl1\<lparr>tailPage := nx\<rparr>) (v\<lparr>vNodes := vNodes v @ [nx]\<rparr>)"
    unfolding flAbs_def
    using abs links slots lens nx nn by (simp add: flAbs_def)
  with set show ?thesis by simp
qed

lemma PushTail_plain:
  assumes "flSet fl (tailPage fl) (\<lambda>node. setPtr psz node (seq2idx psz (tailSeq fl)) p) = Inr fl1"
    and "seq2idx psz (tailSeq fl1 + 1) \<noteq> 0"
  shows "PushTail psz fl p = Inr (fl1\<lparr>tailSeq := tailSeq fl1 + 1\<rparr>)"
  using assms by (simp add: PushTail_def Let_def)

lemma PushTail_wrap:
  assumes "flSet fl (tailPage fl) (\<lambda>node. setPtr psz node (seq2idx psz (tailSeq fl)) p) = Inr fl1"
    and "seq2idx psz (tailSeq fl1 + 1) = 0"
    and "flPop psz (fl1\<lparr>tailSeq := tailSeq fl1 + 1\<rparr>) = Inr (nxt, head, fl3)"
    and "(if nxt = 0 then flNew fl3 (replicate psz 0) else (nxt, fl3)) = (nxt', fl4)"
    and "flSet fl4 (tailPage fl4) (\<lambda>node. setNext node nxt') = Inr fl5"
  shows "PushTail psz fl p =
     (if head \<noteq> 0 then
        (case flSet (fl5\<lparr>tailPage := nxt'\<rparr>) nxt' (\<lambda>node. setPtr psz node 0 head) of
           Inl e \<Rightarrow> Inl e
         | Inr fl7 \<Rightarrow> Inr (fl7\<lparr>tailSeq := tailSeq fl7 + 1\<rparr>))
      else Inr (fl5\<lparr>tailPage := nxt'\<rparr>))"
  using assms by (simp add: PushTail_def Let_def)

lemma slot_unused:
  assumes "h \<le> s" and "s < (t::nat)"
  shows "\<not> (s div c - h div c = t div c - h div c \<and> s mod c = t mod c)"
proof
  assume a: "s div c - h div c = t div c - h div c \<and> s mod c = t mod c"
  from assms(1) have "h div c \<le> s div c" by (rule div_le_mono)
  moreover from assms(2) have "s div c \<le> t div c" by (simp add: div_le_mono)
  ultimately have "s div c = t div c" using a by arith
  with a have "s = t" by (metis div_mult_mod_eq)
  with assms(2) show False by simp
qed

lemma slot_beyond:
  assumes "s < Suc t" and "Suc t mod c = 0" and "Suc h mod c = 0" and "Suc h \<le> s"
  shows "s div c - Suc h div c \<noteq> t div c - h div c"
proof
  assume a: "s div c - Suc h div c = t div c - h div c"
  from assms(3) have dh: "Suc h div c = Suc (h div c)" by (rule div_Suc_wrap)
  from assms(2) have dt: "Suc t div c = Suc (t div c)" by (rule div_Suc_wrap)
  from assms(4) have "Suc h div c \<le> s div c" by (rule div_le_mono)
  with dh have 1: "Suc (h div c) \<le> s div c" by simp
  from assms(1) have "s \<le> t" by simp
  then have 2: "s div c \<le> t div c" by (rule div_le_mono)
  from a dh 1 2 show False by arith
qed

lemma PushTail_sim:
  assumes abs: "flAbs psz fl v" and ok: "viewOk (FREE_LIST_CAP psz) v" and fr: "vFree v p"
    and tb: "vTail v + 2 < 2 ^ 64" and pb: "Suc (vPages v) < 2 ^ 64"
  shows "\<exists>fl'. PushTail psz fl p = Inr fl' \<and> flAbs psz fl' (vPush (FREE_LIST_CAP psz) v p)"
proof -
  let ?cap = "FREE_LIST_CAP psz"
  define k where "k = vTail v div ?cap - vHead v div ?cap"
  from ok have c2: "2 \<le> ?cap" and dist: "distinct (vNodes v)" and hm: "vHead v \<le> vMax v"
    and mt: "vMax v \<le> vTail v" and ln: "length (vNodes v) = Suc k"
    and li: "length (vItems v) = vTail v - vHead v"
    and disj: "set (vItems v) \<inter> set (vNodes v) = {}"
    and i0: "0 \<notin> set (vItems v)" and n0: "0 \<notin> set (vNodes v)"
    and iv: "\<forall>x\<in>set (vItems v). unat x < vPages v"
    by (simp_all add: viewOk_def k_def)
  from hm mt have ht: "vHead v \<le> vTail v" by simp
  from ln have kl: "k < length (vNodes v)" by simp
  from abs have nn: "vNodes v \<noteq> []" and tp0: "tailPage fl = last (vNodes v)"
    and ts: "unat (tailSeq fl) = vTail v"
    by (simp_all add: flAbs_def)
  from nn ln have tp: "tailPage fl = vNodes v ! k"
    by (simp add: tp0 last_conv_nth)
  from c2 have idx: "vTail v mod ?cap < ?cap" by simp
  have free: "\<forall>s. vHead v \<le> s \<and> s < vTail v \<longrightarrow>
      \<not> (s div ?cap - vHead v div ?cap = k \<and> s mod ?cap = vTail v mod ?cap)"
    unfolding k_def using slot_unused by blast
  from flSet_slot [OF abs c2 dist kl idx free, of p]
  obtain fl1 where set1: "flSet fl (vNodes v ! k) (\<lambda>node. setPtr psz node (vTail v mod ?cap) p) = Inr fl1"
    and abs1: "flAbs psz fl1 v"
    and slot1: "nodeSlot (pages fl1 ! unat (vNodes v ! k)) (vTail v mod ?cap) = p"
    and ts1: "tailSeq fl1 = tailSeq fl"
    by blast
  from set1 have e1: "flSet fl (tailPage fl) (\<lambda>node. setPtr psz node (seq2idx psz (tailSeq fl)) p) = Inr fl1"
    by (simp add: tp seq2idx_def ts)
  let ?fl2 = "fl1\<lparr>tailSeq := tailSeq fl1 + 1\<rparr>"
  let ?v2 = "v\<lparr>vItems := vItems v @ [p], vTail := Suc (vTail v)\<rparr>"
  from tb have tb1: "vTail v + 1 < 2 ^ 64" by simp
  from kl slot1 have abs2: "flAbs psz ?fl2 ?v2"
    unfolding k_def by (rule flAbs_extend [OF abs1 _ _ ht tb1])
  then have ts2: "unat (tailSeq fl1 + 1) = Suc (vTail v)"
    by (simp add: flAbs_def)
  show ?thesis
  proof (cases "Suc (vTail v) mod ?cap = 0")
    case False
    then have "seq2idx psz (tailSeq fl1 + 1) \<noteq> 0"
      by (simp add: seq2idx_def ts2)
    from PushTail_plain [OF e1 this] abs2 show ?thesis
      by (simp add: vPush_plain [OF False])
  next
    case wrap: True
    then have w: "seq2idx psz (tailSeq fl1 + 1) = 0"
      by (simp add: seq2idx_def ts2)
    from wrap have dt: "Suc (vTail v) div ?cap = Suc (vTail v div ?cap)" by (rule div_Suc_wrap)
    have ne: "vHead ?v2 \<noteq> vMax ?v2 \<longrightarrow> vHead ?v2 < vTail ?v2"
      using ht by simp
    have ex: "vHead ?v2 \<noteq> vMax ?v2 \<and> Suc (vHead ?v2) mod ?cap = 0 \<longrightarrow>
        2 \<le> length (vNodes ?v2) \<and> vNodes ?v2 ! 1 \<noteq> 0"
    proof (intro impI, elim conjE)
      assume a: "vHead ?v2 \<noteq> vMax ?v2" "Suc (vHead ?v2) mod ?cap = 0"
      with hm mt have "Suc (vHead v) \<le> vTail v" by simp
      from wrap_div_le [OF _ this, of ?cap] a
      have "Suc (vHead v div ?cap) \<le> vTail v div ?cap" by simp
      then have "1 \<le> k" by (simp add: k_def)
      with ln have l2: "2 \<le> length (vNodes v)" by simp
      then have "vNodes v ! 1 \<in> set (vNodes v)" by simp
      with n0 have "vNodes v ! 1 \<noteq> 0" by metis
      with l2 show "2 \<le> length (vNodes ?v2) \<and> vNodes ?v2 ! 1 \<noteq> 0" by simp
    qed
    from flPop_sim [OF abs2 c2 ne ex]
    obtain fl3 where pop: "flPop psz ?fl2 = Inr (fst (vPop ?cap ?v2), fst (snd (vPop ?cap ?v2)), fl3)"
      and abs3: "flAbs psz fl3 (snd (snd (vPop ?cap ?v2)))"
      by blast
    show ?thesis
    proof (cases "vHead v = vMax v")
      case True
      then have vp: "vPop ?cap ?v2 = (0, 0, ?v2)" by (simp add: vPop_def)
      let ?nx = "of_nat (vPages v) :: u64"
      let ?v4 = "?v2\<lparr>vPages := Suc (vPages ?v2)\<rparr>"
      let ?fl4 = "snd (flNew fl3 (replicate psz 0))"
      from abs3 vp have a3: "flAbs psz fl3 ?v2" by simp
      from flNew_sim [OF a3] have abs4: "flAbs psz ?fl4 ?v4"
        and nx: "fst (flNew fl3 (replicate psz 0)) = ?nx" by simp_all
      from pop vp have pop0: "flPop psz ?fl2 = Inr (0, 0, fl3)" by simp
      have new: "(if (0::u64) = 0 then flNew fl3 (replicate psz 0) else (0, fl3)) = (?nx, ?fl4)"
        using nx by (simp add: prod_eq_iff)
      from pb have "unat ?nx = vPages v" by (simp add: unat_of_nat_u64)
      then have nxv: "unat ?nx < vPages ?v4" by simp
      from dist have d4: "distinct (vNodes ?v4)" by simp
      from flSet_next [OF abs4 c2 d4 nxv]
      obtain fl5 where set5: "flSet ?fl4 (tailPage ?fl4) (\<lambda>node. setNext node ?nx) = Inr fl5"
        and abs6: "flAbs psz (fl5\<lparr>tailPage := ?nx\<rparr>) (?v4\<lparr>vNodes := vNodes ?v4 @ [?nx]\<rparr>)"
        by blast
      from PushTail_wrap [OF e1 w pop0 new set5]
      have "PushTail psz fl p = Inr (fl5\<lparr>tailPage := ?nx\<rparr>)" by simp
      moreover have "vPush ?cap v p = ?v4\<lparr>vNodes := vNodes ?v4 @ [?nx]\<rparr>"
        by (simp add: vPush_alloc [OF wrap True])
      ultimately show ?thesis using abs6 by simp
    next
      case pending: False
      with hm mt have lt: "vHead v < vTail v" by simp
      with li obtain x xs where items: "vItems v = x # xs" by (cases "vItems v") auto
      from items i0 have x0: "x \<noteq> 0" by auto
      from items iv have xv: "unat x < vPages v" by simp
      from items disj have xn: "x \<notin> set (vNodes v)" by auto
      show ?thesis
      proof (cases "Suc (vHead v) mod ?cap = 0")
        case nowrap: False
        let ?v3 = "?v2\<lparr>vHead := Suc (vHead v), vItems := xs @ [p]\<rparr>"
        from pending nowrap items have vp: "vPop ?cap ?v2 = (x, 0, ?v3)" by (simp add: vPop_def)
        from abs3 vp have a3: "flAbs psz fl3 ?v3" by simp
        from pop vp have pop0: "flPop psz ?fl2 = Inr (x, 0, fl3)" by simp
        have new: "(if x = 0 then flNew fl3 (replicate psz 0) else (x, fl3)) = (x, fl3)"
          using x0 by simp
        from dist have d3: "distinct (vNodes ?v3)" by simp
        from xv have nxv: "unat x < vPages ?v3" by simp
        from flSet_next [OF a3 c2 d3 nxv]
        obtain fl5 where set5: "flSet fl3 (tailPage fl3) (\<lambda>node. setNext node x) = Inr fl5"
          and abs6: "flAbs psz (fl5\<lparr>tailPage := x\<rparr>) (?v3\<lparr>vNodes := vNodes ?v3 @ [x]\<rparr>)"
          by blast
        from PushTail_wrap [OF e1 w pop0 new set5]
        have "PushTail psz fl p = Inr (fl5\<lparr>tailPage := x\<rparr>)" by simp
        moreover have "vPush ?cap v p = ?v3\<lparr>vNodes := vNodes ?v3 @ [x]\<rparr>"
          by (simp add: vPush_steal [OF wrap pending nowrap items x0])
        ultimately show ?thesis using abs6 by simp
      next
        case hwrap: True
        from ex pending hwrap have l2: "2 \<le> length (vNodes v)" by simp
        then obtain c c' cs where nodes: "vNodes v = c # c' # cs"
          by (cases "vNodes v"; cases "tl (vNodes v)") auto
        from nodes n0 have c0: "c \<noteq> 0" by auto
        let ?v3 = "?v2\<lparr>vHead := Suc (vHead v), vItems := xs @ [p], vNodes := c' # cs\<rparr>"
        from pending hwrap items nodes have vp: "vPop ?cap ?v2 = (x, c, ?v3)"
          by (simp add: vPop_def)
        from abs3 vp have a3: "flAbs psz fl3 ?v3" by simp
        from pop vp have pop0: "flPop psz ?fl2 = Inr (x, c, fl3)" by simp
        have new: "(if x = 0 then flNew fl3 (replicate psz 0) else (x, fl3)) = (x, fl3)"
          using x0 by simp
        from dist nodes have d3: "distinct (vNodes ?v3)" by simp
        from xv have nxv: "unat x < vPages ?v3" by simp
        let ?v6 = "?v3\<lparr>vNodes := vNodes ?v3 @ [x]\<rparr>"
        from flSet_next [OF a3 c2 d3 nxv]
        obtain fl5 where set5: "flSet fl3 (tailPage fl3) (\<lambda>node. setNext node x) = Inr fl5"
          and abs6: "flAbs psz (fl5\<lparr>tailPage := x\<rparr>) ?v6"
          by blast
        let ?fl6 = "fl5\<lparr>tailPage := x\<rparr>"
        from PushTail_wrap [OF e1 w pop0 new set5] c0
        have pt: "PushTail psz fl p =
            (case flSet ?fl6 x (\<lambda>node. setPtr psz node 0 c) of
               Inl e \<Rightarrow> Inl e
             | Inr fl7 \<Rightarrow> Inr (fl7\<lparr>tailSeq := tailSeq fl7 + 1\<rparr>))"
          by simp
        from nodes ln have k6: "k = Suc (length cs)" by simp
        from dist nodes xn have d6: "distinct (vNodes ?v6)" by auto
        have kl6: "k < length (vNodes ?v6)" by (simp add: k6)
        from c2 have idx0: "0 < ?cap" by simp
        from hwrap have dh: "Suc (vHead v) div ?cap = Suc (vHead v div ?cap)" by (rule div_Suc_wrap)
        have free6: "\<forall>s. vHead ?v6 \<le> s \<and> s < vTail ?v6 \<longrightarrow>
            \<not> (s div ?cap - vHead ?v6 div ?cap = k \<and> s mod ?cap = 0)"
          using slot_beyond [OF _ wrap hwrap] by (auto simp: k_def)
        have last6: "vNodes ?v6 ! k = x" by (simp add: k6 nth_append)
        from flSet_slot [OF abs6 c2 d6 kl6 idx0 free6, of c]
        obtain fl7 where set7: "flSet ?fl6 x (\<lambda>node. setPtr psz node 0 c) = Inr fl7"
          and abs7: "flAbs psz fl7 ?v6"
          and slot7: "nodeSlot (pages fl7 ! unat x) 0 = c"
          unfolding last6 by blast
        have k7: "vTail ?v6 div ?cap - vHead ?v6 div ?cap = k"
          by (simp add: dt dh k_def)
        have m7: "vTail ?v6 mod ?cap = 0" using wrap by simp
        have s7: "nodeSlot (pages fl7 ! unat (vNodes ?v6 ! (vTail ?v6 div ?cap - vHead ?v6 div ?cap)))
            (vTail ?v6 mod ?cap) = c"
          unfolding k7 m7 last6 by (rule slot7)
        have kk: "vTail ?v6 div ?cap - vHead ?v6 div ?cap < length (vNodes ?v6)"
          unfolding k7 by (rule kl6)
        have le7: "vHead ?v6 \<le> vTail ?v6" using ht by simp
        have b7: "vTail ?v6 + 1 < 2 ^ 64" using tb by simp
        from flAbs_extend [OF abs7 kk s7 le7 b7]
        have "flAbs psz (fl7\<lparr>tailSeq := tailSeq fl7 + 1\<rparr>)
            (?v6\<lparr>vItems := vItems ?v6 @ [c], vTail := Suc (vTail ?v6)\<rparr>)" .
        moreover have "vPush ?cap v p = ?v6\<lparr>vItems := vItems ?v6 @ [c], vTail := Suc (vTail ?v6)\<rparr>"
          by (simp add: vPush_steal_recycle [OF wrap pending hwrap items x0 nodes c0])
        moreover from pt set7 have "PushTail psz fl p = Inr (fl7\<lparr>tailSeq := tailSeq fl7 + 1\<rparr>)"
          by simp
        ultimately show ?thesis by simp
      qed
    qed
  qed
qed

lemma PopHead_sim:
  assumes abs: "flAbs psz fl v" and ok: "viewOk (FREE_LIST_CAP psz) v"
    and tb: "vTail v + 2 < 2 ^ 64" and pb: "Suc (vPages v) < 2 ^ 64"
  shows "\<exists>fl'. PopHead psz fl = Inr (fst (vPopHead (FREE_LIST_CAP psz) v), fl') \<and>
           flAbs psz fl' (snd (vPopHead (FREE_LIST_CAP psz) v))"
proof -
  let ?cap = "FREE_LIST_CAP psz"
  from ok have c2: "2 \<le> ?cap" and hm: "vHead v \<le> vMax v" and mt: "vMax v \<le> vTail v"
    and n0: "0 \<notin> set (vNodes v)"
    and ln: "length (vNodes v) = vTail v div ?cap - vHead v div ?cap + 1"
    by (simp_all add: viewOk_def)
  have ne: "vHead v \<noteq> vMax v \<longrightarrow> vHead v < vTail v"
    using hm mt by simp
  have ex: "vHead v \<noteq> vMax v \<and> Suc (vHead v) mod ?cap = 0 \<longrightarrow>
      2 \<le> length (vNodes v) \<and> vNodes v ! 1 \<noteq> 0"
  proof (intro impI, elim conjE)
    assume a: "vHead v \<noteq> vMax v" "Suc (vHead v) mod ?cap = 0"
    with hm mt have "Suc (vHead v) \<le> vTail v" by simp
    from wrap_div_le [OF a(2) this]
    have "Suc (vHead v div ?cap) \<le> vTail v div ?cap" .
    with ln have l2: "2 \<le> length (vNodes v)" by simp
    then have "vNodes v ! 1 \<in> set (vNodes v)" by simp
    with n0 have "vNodes v ! 1 \<noteq> 0" by metis
    with l2 show "2 \<le> length (vNodes v) \<and> vNodes v ! 1 \<noteq> 0" by simp
  qed
  from flPop_sim [OF abs c2 ne ex]
  obtain fl1 where pop: "flPop psz fl = Inr (fst (vPop ?cap v), fst (snd (vPop ?cap v)), fl1)"
    and abs1: "flAbs psz fl1 (snd (snd (vPop ?cap v)))"
    by blast
  from ok show ?thesis
  proof (cases rule: vPop_cases)
    case empty
    with pop abs1 show ?thesis
      by (simp add: PopHead_def vPopHead_def)
  next
    case (item x xs)
    with pop abs1 show ?thesis
      by (simp add: PopHead_def vPopHead_def)
  next
    case (node x xs c cs)
    let ?v1 = "v\<lparr>vHead := Suc (vHead v), vItems := xs, vNodes := cs\<rparr>"
    from n0 node(3) have c0: "c \<noteq> 0" by auto
    from abs1 node(5) have a1: "flAbs psz fl1 ?v1" by simp
    from tb have tb1: "vTail ?v1 + 2 < 2 ^ 64" by simp
    from pb have pb1: "Suc (vPages ?v1) < 2 ^ 64" by simp
    from PushTail_sim [OF a1 viewOk_vPop_node [OF ok node(1-4)] tb1 pb1]
    obtain fl2 where push: "PushTail psz fl1 c = Inr fl2"
      and abs2: "flAbs psz fl2 (vPush ?cap ?v1 c)"
      by blast
    from pop node(5) c0 push abs2 show ?thesis
      by (simp add: PopHead_def vPopHead_def)
  qed
qed

lemma flAbs_fresh: "unat h < n \<Longrightarrow> flAbs psz (flFresh psz n h) (vFresh n h)"
  by (simp add: flAbs_def flFresh_def vFresh_def)

lemma viewOk_fresh:
  "2 \<le> cap \<Longrightarrow> h \<noteq> 0 \<Longrightarrow> unat h < n \<Longrightarrow> n < 2 ^ 64 \<Longrightarrow> viewOk cap (vFresh n h)"
  by (simp add: viewOk_def vFresh_def)

lemma vFree_later:
  assumes fr: "vFree v q" and qn: "unat q < n" and n: "n \<le> vPages v"
    and pg: "vPages v \<le> vPages v'" and pb: "vPages v < 2 ^ 64"
    and sub: "set (vItems v') \<union> set (vNodes v') \<subseteq> set (vItems v) \<union> set (vNodes v) \<union> {p, of_nat (vPages v)}"
    and qp: "q \<noteq> p"
  shows "vFree v' q"
proof -
  from pb have "unat (of_nat (vPages v) :: u64) = vPages v" by (rule unat_of_nat_u64)
  with qn n have "q \<noteq> of_nat (vPages v)" by auto
  with fr sub qp have "q \<notin> set (vItems v')" "q \<notin> set (vNodes v')"
    by (auto simp: vFree_def)
  with fr qn n pg show ?thesis by (simp add: vFree_def)
qed

lemma viewOk_SetMax: "viewOk cap v \<Longrightarrow> viewOk cap (v\<lparr>vMax := vTail v\<rparr>)"
  by (auto simp: viewOk_def)

lemma runOk_step:
  assumes r: "runOk cap n v (op # ops)"
  shows "runOk cap n (vStep cap v op) ops"
proof -
  from r have ok: "viewOk cap v" and n: "n \<le> vPages v"
    and tb: "vTail v + 2 * length (op # ops) < 2 ^ 64"
    and pb: "vPages v + length (op # ops) < 2 ^ 64"
    by (simp_all add: runOk_def)
  from pb have pb1: "Suc (vPages v) < 2 ^ 64" and pb0: "vPages v < 2 ^ 64" by simp_all
  show ?thesis
  proof (cases op)
    case (Push p)
    from r Push have fr: "vFree v p" and d: "distinct (pushed ops)" and pn: "p \<notin> set (pushed ops)"
      and rest: "\<forall>q\<in>set (pushed ops). vFree v q \<and> unat q < n"
      by (simp_all add: runOk_def)
    note f = vPush_frame [OF ok, of p]
    have "vFree (vPush cap v p) q \<and> unat q < n" if q: "q \<in> set (pushed ops)" for q
    proof -
      from q pn have "q \<noteq> p" by auto
      from rest q have "vFree v q" "unat q < n" by simp_all
      from vFree_later [OF this n f(2) pb0 f(5) \<open>q \<noteq> p\<close>] \<open>unat q < n\<close> show ?thesis by simp
    qed
    with viewOk_vPush [OF ok fr pb1] f(2,3,4) n d tb pb Push show ?thesis
      by (simp add: runOk_def)
  next
    case Pop
    from r Pop have d: "distinct (pushed ops)"
      and rest: "\<forall>q\<in>set (pushed ops). vFree v q \<and> unat q < n"
      by (simp_all add: runOk_def)
    note f = vPopHead_frame [OF ok]
    have sub: "set (vItems (snd (vPopHead cap v))) \<union> set (vNodes (snd (vPopHead cap v)))
        \<subseteq> set (vItems v) \<union> set (vNodes v) \<union> {of_nat (vPages v), of_nat (vPages v)}"
      using f(5) by simp
    have "vFree (snd (vPopHead cap v)) q \<and> unat q < n" if q: "q \<in> set (pushed ops)" for q
    proof -
      from rest q have fq: "vFree v q" "unat q < n" by simp_all
      from pb0 have "unat (of_nat (vPages v) :: u64) = vPages v" by (rule unat_of_nat_u64)
      with fq(2) n have "q \<noteq> of_nat (vPages v)" by auto
      from vFree_later [OF fq n f(2) pb0 sub this] fq(2) show ?thesis by simp
    qed
    with viewOk_vPopHead [OF ok pb1] f(2,3,4) n d tb pb Pop show ?thesis
      by (simp add: runOk_def)
  next
    case SetMax
    with r viewOk_SetMax [OF ok] show ?thesis
      by (simp add: runOk_def vFree_def)
  qed
qed

lemma run_sim:
  assumes "flAbs psz fl v" and "runOk (FREE_LIST_CAP psz) n v ops"
  shows "\<exists>fl'. flRun psz fl ops = Inr (fl', snd (vRun (FREE_LIST_CAP psz) v ops)) \<and>
           flAbs psz fl' (fst (vRun (FREE_LIST_CAP psz) v ops))"
  using assms
proof (induction ops arbitrary: fl v)
  case Nil
  then show ?case by simp
next
  case (Cons op ops)
  let ?cap = "FREE_LIST_CAP psz"
  from Cons.prems(2) have ok: "viewOk ?cap v"
    and tb: "vTail v + 2 * length (op # ops) < 2 ^ 64"
    and pb: "vPages v + length (op # ops) < 2 ^ 64"
    by (simp_all add: runOk_def)
  from tb have tb2: "vTail v + 2 < 2 ^ 64" by simp
  from pb have pb1: "Suc (vPages v) < 2 ^ 64" by simp
  note nxt = runOk_step [OF Cons.prems(2)]
  show ?case
  proof (cases op)
    case (Push p)
    from Cons.prems(2) Push have fr: "vFree v p" by (simp add: runOk_def)
    from PushTail_sim [OF Cons.prems(1) ok fr tb2 pb1]
    obtain fl1 where push: "PushTail psz fl p = Inr fl1" and a1: "flAbs psz fl1 (vPush ?cap v p)"
      by blast
    from nxt Push have "runOk ?cap n (vPush ?cap v p) ops" by simp
    from Cons.IH [OF a1 this] push Push show ?thesis by simp
  next
    case Pop
    from PopHead_sim [OF Cons.prems(1) ok tb2 pb1]
    obtain fl1 where pop: "PopHead psz fl = Inr (fst (vPopHead ?cap v), fl1)"
      and a1: "flAbs psz fl1 (snd (vPopHead ?cap v))"
      by blast
    from nxt Pop have "runOk ?cap n (snd (vPopHead ?cap v)) ops" by simp
    from Cons.IH [OF a1 this] pop Pop show ?thesis by auto
  next
    case SetMax
    from Cons.prems(1) have a1: "flAbs psz (SetMaxSeq fl) (v\<lparr>vMax := vTail v\<rparr>)"
      by (simp add: flAbs_def SetMaxSeq_def)
    from nxt SetMax have "runOk ?cap n (v\<lparr>vMax := vTail v\<rparr>) ops" by simp
    from Cons.IH [OF a1 this] SetMax show ?thesis by simp
  qed
qed

subsection \<open>Sequences of operations\<close>

lemma pushed_append: "pushed (a @ b) = pushed a @ pushed b"
  by (induction a rule: pushed.induct) simp_all

lemma pushed_map_Push: "pushed (map Push ids) = ids"
  by (induction ids) simp_all

lemma pushed_replicate_Pop: "pushed (replicate k Pop) = []"
  by (induction k) simp_all

lemma vRun_step: "fst (vRun cap v (op # ops)) = fst (vRun cap (vStep cap v op) ops)"
  by (cases op) simp_all

lemma vRun_append:
  "vRun cap v (a @ b) =
     (fst (vRun cap (fst (vRun cap v a)) b),
      snd (vRun cap v a) @ snd (vRun cap (fst (vRun cap v a)) b))"
  by (induction cap v a rule: vRun.induct) simp_all

lemma runOk_append: "runOk cap n v (a @ b) \<Longrightarrow> runOk cap n (fst (vRun cap v a)) b"
proof (induction a arbitrary: v)
  case Nil
  then show ?case by simp
next
  case (Cons op a)
  from Cons.prems have "runOk cap n v (op # (a @ b))" by simp
  from Cons.IH [OF runOk_step [OF this]] show ?case
    by (simp only: vRun_step)
qed

lemma runOk_fresh:
  assumes c2: "2 \<le> cap" and h0: "h \<noteq> 0" and hn: "unat h < n"
    and cl: "flClientOk n h ops" and b: "n + 2 * length ops < 2 ^ 64"
  shows "runOk cap n (vFresh n h) ops"
proof -
  from b have "n < 2 ^ 64" by simp
  from viewOk_fresh [OF c2 h0 hn this] cl b show ?thesis
    by (auto simp: runOk_def flClientOk_def vFree_def vFresh_def)
qed

subsection \<open>The watermark\<close>




subsection \<open>First in, first out\<close>

lemma vPush_at_watermark:
  assumes ok: "viewOk cap v" and e: "vHead v = vMax v"
  shows "vHead (vPush cap v p) = vHead v \<and> vMax (vPush cap v p) = vMax v \<and>
         vItems (vPush cap v p) = vItems v @ [p] \<and> vTail (vPush cap v p) = Suc (vTail v)"
  using ok
proof (cases rule: vPush_cases [where p = p])
  case plain
  then show ?thesis by simp
next
  case alloc
  then show ?thesis by simp
next
  case (steal x xs)
  with e show ?thesis by simp
next
  case (recycle x xs c cs)
  with e show ?thesis by simp
qed

lemma push_run:
  assumes "runOk cap n v (map Push ids @ rest)" and "vHead v = vMax v"
  shows "vHead (fst (vRun cap v (map Push ids))) = vHead v \<and>
         vMax (fst (vRun cap v (map Push ids))) = vMax v \<and>
         vItems (fst (vRun cap v (map Push ids))) = vItems v @ ids \<and>
         vTail (fst (vRun cap v (map Push ids))) = vTail v + length ids \<and>
         snd (vRun cap v (map Push ids)) = []"
  using assms
proof (induction ids arbitrary: v)
  case Nil
  then show ?case by simp
next
  case (Cons p ids)
  from Cons.prems(1) have r: "runOk cap n v (Push p # (map Push ids @ rest))" by simp
  then have ok: "viewOk cap v" by (simp add: runOk_def)
  note s = vPush_at_watermark [OF ok Cons.prems(2), of p]
  from runOk_step [OF r] have r1: "runOk cap n (vPush cap v p) (map Push ids @ rest)" by simp
  from s Cons.prems(2) have e1: "vHead (vPush cap v p) = vMax (vPush cap v p)" by simp
  from Cons.IH [OF r1 e1] s show ?case by simp
qed

lemma wrap_quotient: "Suc h mod c = 0 \<Longrightarrow> Suc h div c * c = Suc h"
  by (metis add.right_neutral div_mult_mod_eq)

lemma pop_run:
  assumes "runOk cap n v (replicate k Pop)" and "vHead v + k = vMax v"
    and "vTail v = vMax v + vHead v div cap" and "noSteal cap (vMax v)"
  shows "snd (vRun cap v (replicate k Pop)) = take k (vItems v)"
  using assms
proof (induction k arbitrary: v)
  case 0
  then show ?case by simp
next
  case (Suc k)
  from Suc.prems(1) have r: "runOk cap n v (Pop # replicate k Pop)" by simp
  then have ok: "viewOk cap v" by (simp add: runOk_def)
  from ok have c2: "2 \<le> cap" and li: "length (vItems v) = vTail v - vHead v"
    by (simp_all add: viewOk_def)
  from runOk_step [OF r] have r1: "runOk cap n (snd (vPopHead cap v)) (replicate k Pop)" by simp
  from Suc.prems(2) have ne: "vHead v \<noteq> vMax v" by simp
  from ok show ?case
  proof (cases rule: vPopHead_cases)
    case empty
    with ne show ?thesis by simp
  next
    case (item x xs)
    let ?v1 = "v\<lparr>vHead := Suc (vHead v), vItems := xs\<rparr>"
    from item(3) have dh: "Suc (vHead v) div cap = vHead v div cap" by (rule div_Suc_same)
    from r1 item(4) have a: "runOk cap n ?v1 (replicate k Pop)" by simp
    from Suc.prems(2) have b: "vHead ?v1 + k = vMax ?v1" by simp
    from Suc.prems(3) dh have c: "vTail ?v1 = vMax ?v1 + vHead ?v1 div cap" by simp
    from Suc.prems(4) have d: "noSteal cap (vMax ?v1)" by simp
    from Suc.IH [OF a b c d] item(2,4) show ?thesis by simp
  next
    case (node x xs c cs)
    let ?v1 = "v\<lparr>vHead := Suc (vHead v), vItems := xs, vNodes := cs\<rparr>"
    show ?thesis
    proof (cases k)
      case 0
      with node(2,5) show ?thesis by simp
    next
      case (Suc k')
      with Suc.prems(2) have lt: "Suc (vHead v) < vMax v" by simp
      from node(4) have dh: "Suc (vHead v) div cap = Suc (vHead v div cap)" by (rule div_Suc_wrap)
      from wrap_quotient [OF node(4)] have q: "Suc (vHead v) div cap * cap = Suc (vHead v)" .
      have r1': "1 \<le> Suc (vHead v) div cap" by (simp add: dh)
      have rM: "Suc (vHead v) div cap \<le> vMax v"
        by (rule order_trans [OF div_le_dividend]) (use lt in simp)
      from Suc.prems(4) r1' rM q lt have "(vMax v + Suc (vHead v) div cap) mod cap \<noteq> 0"
        by (simp add: noSteal_def)
      with Suc.prems(3) dh have nw: "Suc (vTail ?v1) mod cap \<noteq> 0" by simp
      let ?v2 = "?v1\<lparr>vItems := vItems ?v1 @ [c], vTail := Suc (vTail ?v1)\<rparr>"
      from vPush_plain [OF nw, of c] have p2: "vPush cap ?v1 c = ?v2" .
      from r1 node(5) p2 have a: "runOk cap n ?v2 (replicate k Pop)" by simp
      from Suc.prems(2) have b: "vHead ?v2 + k = vMax ?v2" by simp
      from Suc.prems(3) dh have c: "vTail ?v2 = vMax ?v2 + vHead ?v2 div cap" by simp
      from Suc.prems(4) have d: "noSteal cap (vMax ?v2)" by simp
      from li node(2) Suc.prems(2,3) have "k \<le> length xs" by simp
      with Suc.IH [OF a b c d] node(2,5) p2 show ?thesis by simp
    qed
  qed
qed

text \<open>
  Claim C5 (counter invariant), as the code has it. From a list whose counters satisfy
  \<open>headSeq \<le> maxSeq \<le> tailSeq\<close>, every sequence of \<^verbatim>\<open>PushTail\<close>, \<^verbatim>\<open>PopHead\<close> and
  \<^verbatim>\<open>SetMaxSeq\<close> calls that returns leaves a list whose counters satisfy it again, provided
  the 64-bit counter \<open>tailSeq\<close> cannot wrap during the run: a call adds at most two to
  it, so \<open>tailSeq + 2 * n < 2^64\<close> for a run of \<open>n\<close> calls is enough.
\<close>

theorem counters_ordered:
  assumes "flRun psz fl ops = Inr (fl', ptrs)" and "seqOrdered fl"
    and "unat (tailSeq fl) + 2 * length ops < 2 ^ 64"
  shows "seqOrdered fl'"
  using flRun_counters [OF assms] by simp

theorem counters_ordered_witness:
  "seqOrdered (flFresh 32 9 1) \<and>
   (\<exists>fl' ptrs. flRun 32 (flFresh 32 9 1) [Push 2, Push 3, Push 4, SetMax, Pop, Push 5]
      = Inr (fl', ptrs) \<and> seqOrdered fl')"
proof -
  let ?ops = "[Push 2, Push 3, Push 4, SetMax, Pop, Push 5]"
  have o: "seqOrdered (flFresh 32 9 1)"
    by (simp add: seqOrdered_def flFresh_def)
  have c2: "2 \<le> FREE_LIST_CAP 32"
    by (simp add: FREE_LIST_CAP_def FREE_LIST_HEADER_def)
  have cl: "flClientOk 9 1 ?ops"
    by (simp add: flClientOk_def)
  have h: "unat (1 :: u64) < 9" by simp
  from runOk_fresh [OF c2 _ h cl]
  have "runOk (FREE_LIST_CAP 32) 9 (vFresh 9 1) ?ops" by simp
  from run_sim [OF flAbs_fresh [OF h] this]
  obtain fl' ptrs where r: "flRun 32 (flFresh 32 9 1) ?ops = Inr (fl', ptrs)"
    by blast
  have b: "unat (tailSeq (flFresh 32 9 1)) + 2 * length ?ops < 2 ^ 64"
    by (simp add: flFresh_def)
  from counters_ordered [OF r o b] o r show ?thesis by blast
qed

text \<open>
  Claim C5 as stated fails: the counters are 64-bit numbers and \<open>tailSeq\<close> wraps. On a
  store of 9 pages of 32 bytes (node capacity 3), the list with \<open>headSeq = 0\<close>,
  \<open>maxSeq = 1\<close> and \<open>tailSeq = 2^64 - 1\<close> satisfies the inequality; after \<^verbatim>\<open>PushTail(7)\<close>
  the counters are \<open>headSeq = 1\<close>, \<open>maxSeq = 1\<close> and \<open>tailSeq = 0\<close>.
\<close>

theorem counters_wrap:
  "seqOrdered ((flFresh 32 9 1)\<lparr>maxSeq := 1, tailSeq := 0xFFFFFFFFFFFFFFFF\<rparr>) \<and>
   map_sum id (seqOrdered \<circ> fst)
     (flRun 32 ((flFresh 32 9 1)\<lparr>maxSeq := 1, tailSeq := 0xFFFFFFFFFFFFFFFF\<rparr>) [Push 7])
     = Inr False"
  by (simp add: seqOrdered_def flFresh_def PushTail_def flSet_def flGet_def setPtr_def seq2idx_def
      FREE_LIST_CAP_def FREE_LIST_HEADER_def flPop_def getPtr_def Let_def setNext_def
      LittleEndian_PutUint64_def LittleEndian_Uint64_def word_le_nat_alt)




text \<open>
  Claim C3 (first in, first out), as the code has it. On a store of \<open>n\<close> pages whose size
  gives a node capacity \<open>cap\<close> of at least two, take a new list on the node \<open>h\<close> and \<open>M\<close>
  pairwise different pages of the \<open>n\<close>, none of them zero or \<open>h\<close>, with \<open>n + 4 * M + 2\<close>
  below \<open>2^64\<close>. If no \<open>r\<close> from 1 to \<open>M\<close> has \<open>r * cap < M\<close> and \<open>cap\<close> dividing \<open>M + r\<close>
  (\<^const>\<open>noSteal\<close>; for \<open>cap < M \<le> 2 * cap\<close> this says \<open>M \<noteq> 2 * cap - 1\<close>), then pushing
  the \<open>M\<close> pages, \<^verbatim>\<open>SetMaxSeq\<close> and \<open>M\<close> calls of \<^verbatim>\<open>PopHead\<close> all return, and the pops
  return the \<open>M\<close> pages in the order they were pushed, also across the rollover of the
  tail.
\<close>

theorem fifo_without_steal:
  assumes c2: "2 \<le> FREE_LIST_CAP psz" and h0: "h \<noteq> 0" and hn: "unat h < n"
    and di: "distinct ids" and ids: "\<forall>p\<in>set ids. p \<noteq> 0 \<and> p \<noteq> h \<and> unat p < n"
    and ns: "noSteal (FREE_LIST_CAP psz) (length ids)"
    and bd: "n + 4 * length ids + 2 < 2 ^ 64"
  shows "\<exists>fl'. flRun psz (flFresh psz n h)
           (map Push ids @ [SetMax] @ replicate (length ids) Pop) = Inr (fl', ids)"
proof -
  let ?cap = "FREE_LIST_CAP psz"
  let ?M = "length ids"
  let ?ops = "map Push ids @ [SetMax] @ replicate ?M Pop"
  let ?v0 = "vFresh n h"
  let ?v1 = "fst (vRun ?cap ?v0 (map Push ids))"
  let ?v2 = "?v1\<lparr>vMax := vTail ?v1\<rparr>"
  have cl: "flClientOk n h ?ops"
    using di ids
    by (simp add: flClientOk_def pushed_append pushed_map_Push pushed_replicate_Pop)
  from bd have bd': "n + 2 * length ?ops < 2 ^ 64" by simp
  from runOk_fresh [OF c2 h0 hn cl bd'] have r0: "runOk ?cap n ?v0 ?ops" .
  have e0: "vHead ?v0 = vMax ?v0" by (simp add: vFresh_def)
  from push_run [OF r0 e0]
  have h1: "vHead ?v1 = 0" and m1: "vMax ?v1 = 0" and i1: "vItems ?v1 = ids"
    and t1: "vTail ?v1 = ?M" and s1: "snd (vRun ?cap ?v0 (map Push ids)) = []"
    by (simp_all add: vFresh_def)
  from runOk_append [OF r0] have "runOk ?cap n ?v1 (SetMax # replicate ?M Pop)" by simp
  from runOk_step [OF this] have r2: "runOk ?cap n ?v2 (replicate ?M Pop)" by simp
  have a: "vHead ?v2 + ?M = vMax ?v2" using h1 t1 by simp
  have b: "vTail ?v2 = vMax ?v2 + vHead ?v2 div ?cap" using h1 by simp
  have c: "noSteal ?cap (vMax ?v2)" using ns t1 by simp
  from pop_run [OF r2 a b c] i1 have res: "snd (vRun ?cap ?v2 (replicate ?M Pop)) = ids"
    by simp
  have "snd (vRun ?cap ?v0 ?ops) = ids"
    using s1 res by (simp add: vRun_append)
  with run_sim [OF flAbs_fresh [OF hn] r0] show ?thesis by auto
qed

theorem fifo_without_steal_witness:
  "\<exists>fl'. flRun 32 (flFresh 32 9 1) (map Push [2, 3, 4, 5] @ [SetMax] @ replicate 4 Pop)
     = Inr (fl', [2, 3, 4, 5])"
proof -
  have "\<And>r :: nat. 1 \<le> r \<Longrightarrow> r * 3 < 4 \<Longrightarrow> (4 + r) mod 3 \<noteq> 0"
    by presburger
  then have n: "noSteal 3 4" by (simp add: noSteal_def)
  have l: "length [2 :: u64, 3, 4, 5] = 4" by simp
  have c: "FREE_LIST_CAP 32 = 3" by (simp add: FREE_LIST_CAP_def FREE_LIST_HEADER_def)
  have ns: "noSteal (FREE_LIST_CAP 32) (length [2 :: u64, 3, 4, 5])"
    unfolding l c by (rule n)
  have c2: "2 \<le> FREE_LIST_CAP 32" by (simp add: c)
  have h: "unat (1 :: u64) < 9" by simp
  have d: "distinct [2 :: u64, 3, 4, 5]" by simp
  have ids: "\<forall>p\<in>set [2 :: u64, 3, 4, 5]. p \<noteq> 0 \<and> p \<noteq> 1 \<and> unat p < 9" by simp
  have b: "9 + 4 * length [2 :: u64, 3, 4, 5] + 2 < (2 :: nat) ^ 64" by simp
  from fifo_without_steal [OF c2 _ h d ids ns b] show ?thesis
    unfolding l by simp
qed

text \<open>
  Claim C3 as stated fails where an exhausted head node comes back at a rollover of the
  tail. On a store of 9 pages of 32 bytes (node capacity 3), the new list on node 1 is
  given the pages 2, 3, 4, 5 and 6 (\<open>M = 5\<close>); the third \<^verbatim>\<open>PopHead\<close> exhausts node 1 and
  pushes it to position 5, the tail rolls over and \<^verbatim>\<open>PushTail\<close> takes the next item,
  page 5, as its new tail node. The five pops return 2, 3, 4, 6 and 0: page 5 is never
  returned.
\<close>

theorem fifo_rollover_takes_item:
  "map_sum id snd (flRun 32 (flFresh 32 9 1)
      (map Push [2, 3, 4, 5, 6] @ [SetMax] @ replicate 5 Pop)) = Inr [2, 3, 4, 6, 0]"
  by code_simp
end
